theory Spec2Isabelle
  imports Main
begin

section \<open>Console Tetris: the game-state core of tetris.cpp\<close>

text \<open>
  The development follows the single source file \<^verbatim>\<open>tetris.cpp\<close>: the piece catalogue
  and its rotation, the collision test, locking, line clearing with scoring, spawning and
  the key and gravity handling of the main loop.

  C++ \<^verbatim>\<open>int\<close> values are modelled as \<open>int\<close>. Division and remainder truncate towards
  zero in C++; they are written out as \<open>c_div\<close> and \<open>c_mod\<close>. The one place where two
  widths meet is the score: \<^verbatim>\<open>g.score\<close> is a \<^verbatim>\<open>long long\<close>, but the product added to it
  is computed on two 32-bit \<^verbatim>\<open>int\<close> operands first. That product is modelled with its
  32-bit result, \<open>wrap32\<close>.
\<close>

subsection \<open>Integer division and remainder of C++\<close>

definition c_div :: "int \<Rightarrow> int \<Rightarrow> int" where
  "c_div a b = sgn a * sgn b * (\<bar>a\<bar> div \<bar>b\<bar>)"

definition c_mod :: "int \<Rightarrow> int \<Rightarrow> int" where
  "c_mod a b = a - b * c_div a b"

text \<open>
  The value of a 32-bit signed \<^verbatim>\<open>int\<close> that holds the low 32 bits of \<open>x\<close> in two's
  complement. An \<^verbatim>\<open>int\<close> operation whose exact result is outside the 32-bit range is
  undefined in C++; the compiled program leaves this value.
\<close>

definition wrap32 :: "int \<Rightarrow> int" where
  "wrap32 x = (x + 2 ^ 31) mod 2 ^ 32 - 2 ^ 31"

subsection \<open>Fixed arrays of four elements\<close>

text \<open>
  \<^verbatim>\<open>std::array<T,4>\<close> always has exactly four elements. Reading or writing at an index
  outside \<open>0..3\<close> is undefined in C++; the program never does it, and the model leaves the
  read unspecified and the write without effect.
\<close>

datatype 'a array4 = Array4 'a 'a 'a 'a

fun at4 :: "'a array4 \<Rightarrow> nat \<Rightarrow> 'a" where
  "at4 (Array4 a b c d) i =
     (if i = 0 then a else if i = 1 then b else if i = 2 then c
      else if i = 3 then d else undefined)"

fun upd4 :: "'a array4 \<Rightarrow> nat \<Rightarrow> 'a \<Rightarrow> 'a array4" where
  "upd4 (Array4 a b c d) i v =
     (if i = 0 then Array4 v b c d else if i = 1 then Array4 a v c d
      else if i = 2 then Array4 a b v d else if i = 3 then Array4 a b c v
      else Array4 a b c d)"

type_synonym cells4 = "int array4 array4"

definition getCell :: "cells4 \<Rightarrow> nat \<Rightarrow> nat \<Rightarrow> int" where
  "getCell cs r c = at4 (at4 cs r) c"

definition setCell :: "cells4 \<Rightarrow> nat \<Rightarrow> nat \<Rightarrow> int \<Rightarrow> cells4" where
  "setCell cs r c v = upd4 cs r (upd4 (at4 cs r) c v)"

definition zeroCells :: cells4 where
  "zeroCells = Array4 (Array4 0 0 0 0) (Array4 0 0 0 0) (Array4 0 0 0 0) (Array4 0 0 0 0)"

subsection \<open>Board size and the piece catalogue\<close>

definition BOARD_W :: int where
  "BOARD_W = 10"

definition BOARD_H :: int where
  "BOARD_H = 20"

definition TETROMINO :: "string list list" where
  "TETROMINO =
    [[''....'', ''XXXX'', ''....'', ''....''],
     [''X..'', ''XXX'', ''...''],
     [''..X'', ''XXX'', ''...''],
     [''XX'', ''XX''],
     [''.XX'', ''XX.'', ''...''],
     [''.X.'', ''XXX'', ''...''],
     [''XX.'', ''.XX'', ''...'']]"

record Piece =
  cells :: cells4
  size_p :: int

text \<open>
  The lambda \<^verbatim>\<open>toPiece\<close> of \<^verbatim>\<open>initPieces\<close>: the shape is read into the top-left
  \<open>n \<times> n\<close> corner of a zeroed grid \<open>p\<close>, a second grid \<open>out\<close> is zeroed cell by cell, and
  the corner of \<open>p\<close> is copied into it. Each counting loop is a \<open>foldl\<close> over its index
  range.
\<close>

definition toPiece :: "string list \<Rightarrow> Piece" where
  "toPiece shape =
    (let n = length shape;
         p = foldl (\<lambda>cs r. foldl (\<lambda>cs c.
               setCell cs r c (if shape ! r ! c = CHR ''X'' then 1 else 0)) cs [0..<n])
             zeroCells [0..<n];
         out0 = foldl (\<lambda>cs r. foldl (\<lambda>cs c. setCell cs r c 0) cs [0..<4])
             zeroCells [0..<4];
         out = foldl (\<lambda>cs r. foldl (\<lambda>cs c. setCell cs r c (getCell p r c)) cs [0..<n])
             out0 [0..<n]
     in \<lparr>cells = out, size_p = 4\<rparr>)"

definition pieces :: "Piece list" where
  "pieces = map toPiece TETROMINO"

subsection \<open>Rotation\<close>

text \<open>One pass of the \<^verbatim>\<open>while(times--)\<close> body of \<^verbatim>\<open>rotatePiece\<close>.\<close>

definition rotateOnce :: "Piece \<Rightarrow> Piece" where
  "rotateOnce cur =
    \<lparr>cells = foldl (\<lambda>cs r. foldl (\<lambda>cs c.
               setCell cs r c (getCell (cells cur) (3 - c) r)) cs [0..<4])
             zeroCells [0..<4],
     size_p = 4\<rparr>"

primrec rotateLoop :: "nat \<Rightarrow> Piece \<Rightarrow> Piece" where
  "rotateLoop 0 cur = cur"
| "rotateLoop (Suc n) cur = rotateLoop n (rotateOnce cur)"

text \<open>
  \<^verbatim>\<open>rotatePiece\<close>; \<open>tms\<close> is the parameter \<^verbatim>\<open>times\<close>, reduced by
  \<^verbatim>\<open>(times%4+4)%4\<close> before the loop counts it down.
\<close>

definition rotatePiece :: "Piece \<Rightarrow> int \<Rightarrow> Piece" where
  "rotatePiece p tms = rotateLoop (nat (c_mod (c_mod tms 4 + 4) 4)) p"

text \<open>The sixteen frame cells in the order of the nested \<^verbatim>\<open>for\<close> loops.\<close>

definition frameCells :: "(nat \<times> nat) list" where
  "frameCells = concat (map (\<lambda>r. map (\<lambda>c. (r, c)) [0..<4]) [0..<4])"

definition cellCount :: "cells4 \<Rightarrow> nat" where
  "cellCount cs = length (filter (\<lambda>(r, c). getCell cs r c \<noteq> 0) frameCells)"

subsection \<open>Game state\<close>

record Game =
  board :: "int list list"
  curPieceId :: int
  curRot :: int
  curX :: int
  curY :: int
  nextPieceId :: int
  gameOver :: bool
  score :: int
  level :: int
  linesCleared :: int

text \<open>
  The board is a \<^verbatim>\<open>vector<vector<int>>\<close>; \<^verbatim>\<open>main\<close> gives it \<open>BOARD_H\<close> rows of
  \<open>BOARD_W\<close> columns, and no operation changes these dimensions. The kinds
  \<^verbatim>\<open>curPieceId\<close> and \<^verbatim>\<open>nextPieceId\<close> index the catalogue \<^verbatim>\<open>pieces\<close>; the program
  only ever stores values from 0 to 6 in them. Indexing a vector outside its length is
  undefined in C++, so the properties below that read the board or the catalogue are
  stated for boards of these dimensions and for kinds from 0 to 6.
\<close>

definition wf_board :: "int list list \<Rightarrow> bool" where
  "wf_board b =
    (length b = nat BOARD_H \<and> list_all (\<lambda>row. length row = nat BOARD_W) b)"

subsection \<open>Collision test\<close>

text \<open>
  The nested loops of \<^verbatim>\<open>collides\<close> visit the frame cells in row-major order and return
  at the first hit.
\<close>

fun collidesCells :: "int list list \<Rightarrow> cells4 \<Rightarrow> int \<Rightarrow> int \<Rightarrow> (nat \<times> nat) list \<Rightarrow> bool" where
  "collidesCells b cs x y [] = False"
| "collidesCells b cs x y ((r, c) # rest) =
    (if getCell cs r c = 0 then collidesCells b cs x y rest
     else (let br = y + int r; bc = x + int c in
       if bc < 0 \<or> bc \<ge> BOARD_W \<or> br \<ge> BOARD_H then True
       else if br \<ge> 0 \<and> b ! nat br ! nat bc \<noteq> 0 then True
       else collidesCells b cs x y rest))"

definition collides :: "Game \<Rightarrow> int \<Rightarrow> int \<Rightarrow> int \<Rightarrow> int \<Rightarrow> bool" where
  "collides g pieceId rot x y =
    (let p = rotatePiece (pieces ! nat pieceId) rot
     in collidesCells (board g) (cells p) x y frameCells)"

subsection \<open>Locking a piece\<close>

fun placeCells :: "int list list \<Rightarrow> cells4 \<Rightarrow> int \<Rightarrow> int \<Rightarrow> int \<Rightarrow> (nat \<times> nat) list \<Rightarrow> int list list" where
  "placeCells b cs x y v [] = b"
| "placeCells b cs x y v ((r, c) # rest) =
    (if getCell cs r c = 0 then placeCells b cs x y v rest
     else (let br = y + int r; bc = x + int c in
       if br \<ge> 0 \<and> br < BOARD_H \<and> bc \<ge> 0 \<and> bc < BOARD_W
       then placeCells (b[nat br := (b ! nat br)[nat bc := v]]) cs x y v rest
       else placeCells b cs x y v rest))"

definition placePiece :: "Game \<Rightarrow> Game" where
  "placePiece g =
    (let p = rotatePiece (pieces ! nat (curPieceId g)) (curRot g)
     in g\<lparr>board := placeCells (board g) (cells p) (curX g) (curY g) (curPieceId g + 1) frameCells\<rparr>)"

subsection \<open>Clearing full rows and scoring\<close>

text \<open>
  The column scan of \<^verbatim>\<open>clearLines\<close>: a row is full unless some column in \<open>[0, BOARD_W)\<close>
  holds 0.
\<close>

definition rowFull :: "int list \<Rightarrow> bool" where
  "rowFull row = list_all (\<lambda>c. row ! c \<noteq> 0) [0..<nat BOARD_W]"

text \<open>
  \<^verbatim>\<open>for(int rr=r; rr>0; --rr) g.board[rr] = g.board[rr-1];\<close> followed by
  \<^verbatim>\<open>g.board[0] = vector<int>(BOARD_W,0);\<close>
\<close>

fun shiftDown :: "int list list \<Rightarrow> nat \<Rightarrow> int list list" where
  "shiftDown b 0 = b"
| "shiftDown b (Suc n) = shiftDown (b[Suc n := b ! n]) n"

definition removeRow :: "int list list \<Rightarrow> nat \<Rightarrow> int list list" where
  "removeRow b r = (shiftDown b r)[0 := replicate (nat BOARD_W) 0]"

lemma shiftDown_length: "length (shiftDown b n) = length b"
  by (induction n arbitrary: b) simp_all

lemma shiftDown_nth:
  "n < length b \<Longrightarrow> i < length b \<Longrightarrow>
   shiftDown b n ! i = (if 0 < i \<and> i \<le> n then b ! (i - 1) else b ! i)"
proof (induction n arbitrary: b i)
  case 0
  then show ?case by simp
next
  case (Suc n)
  then show ?case
    by (cases "i = Suc n") (auto simp: nth_list_update)
qed

lemma removeRow_eq:
  assumes "r < length b"
  shows "removeRow b r = replicate (nat BOARD_W) 0 # take r b @ drop (Suc r) b"
proof (rule nth_equalityI)
  show "length (removeRow b r) = length (replicate (nat BOARD_W) 0 # take r b @ drop (Suc r) b)"
    using assms by (simp add: removeRow_def shiftDown_length)
next
  fix i assume "i < length (removeRow b r)"
  then have i: "i < length b" by (simp add: removeRow_def shiftDown_length)
  show "removeRow b r ! i = (replicate (nat BOARD_W) 0 # take r b @ drop (Suc r) b) ! i"
  proof (cases i)
    case 0
    then show ?thesis using i by (simp add: removeRow_def shiftDown_length)
  next
    case (Suc j)
    then show ?thesis using i assms
      by (auto simp: removeRow_def shiftDown_nth nth_append min_def)
  qed
qed

lemma emptyRow_not_full: "\<not> rowFull (replicate (nat BOARD_W) 0)"
  by (simp add: rowFull_def BOARD_W_def upt_rec)

lemma filter_remove:
  assumes "r < length b" and "P (b ! r)"
  shows "length (filter P (take r b @ drop (Suc r) b)) < length (filter P b)"
proof -
  have "b = take r b @ b ! r # drop (Suc r) b"
    using assms(1) by (simp add: id_take_nth_drop [symmetric])
  then have "length (filter P b) = length (filter P (take r b @ b ! r # drop (Suc r) b))"
    by simp
  then show ?thesis using assms(2) by simp
qed

text \<open>
  The row scan \<^verbatim>\<open>for(int r=BOARD_H-1;r>=0;--r)\<close>. After a full row is removed the
  source increments \<open>r\<close> so that the decrement of the loop header leaves it in place and
  the row shifted in is tested again. Indexing the vector outside its length is undefined
  in C++; this is the result \<open>None\<close>. Every removal lowers the number of full rows, which
  is why the scan ends.
\<close>

function clearLoop :: "int list list \<Rightarrow> int \<Rightarrow> int \<Rightarrow> (int list list \<times> int) option" where
  "clearLoop b r cleared =
    (if r < 0 then Some (b, cleared)
     else if int (length b) \<le> r then None
     else if rowFull (b ! nat r) then clearLoop (removeRow b (nat r)) r (cleared + 1)
     else clearLoop b (r - 1) cleared)"
  by pat_completeness auto
termination
proof (relation "measures [\<lambda>(b, r, cleared). length (filter rowFull b), \<lambda>(b, r, cleared). nat (r + 1)]")
  show "wf (measures [\<lambda>(b, r, cleared). length (filter rowFull b), \<lambda>(b, r, cleared). nat (r + 1)])"
    by simp
next
  fix b :: "int list list" and r cleared :: int
  assume "\<not> r < 0" and "\<not> int (length b) \<le> r" and "rowFull (b ! nat r)"
  then have "nat r < length b" by simp
  then show "((removeRow b (nat r), r, cleared + 1), b, r, cleared)
     \<in> measures [\<lambda>(b, r, cleared). length (filter rowFull b), \<lambda>(b, r, cleared). nat (r + 1)]"
    using filter_remove [of "nat r" b rowFull] \<open>rowFull (b ! nat r)\<close>
    by (simp add: removeRow_eq emptyRow_not_full)
next
  fix b :: "int list list" and r cleared :: int
  assume "\<not> r < 0"
  then show "((b, r - 1, cleared), b, r, cleared)
     \<in> measures [\<lambda>(b, r, cleared). length (filter rowFull b), \<lambda>(b, r, cleared). nat (r + 1)]"
    by simp
qed

declare clearLoop.simps [simp del]

definition scoreTable :: "int list" where
  "scoreTable = [0, 40, 100, 300, 1200]"

text \<open>
  \<^verbatim>\<open>clearLines\<close>: the row scan, then the score and level update. \<^verbatim>\<open>scoreTable\<close> has
  five entries; reading it at an index above 4 is undefined in C++, the result \<open>None\<close>.
  In \<^verbatim>\<open>g.score += scoreTable[cleared] * g.level\<close> both factors are \<^verbatim>\<open>int\<close>, so the
  product is a 32-bit \<^verbatim>\<open>int\<close> and is widened to \<^verbatim>\<open>long long\<close> only for the addition.
\<close>

definition clearLines :: "Game \<Rightarrow> (Game \<times> int) option" where
  "clearLines g =
    (case clearLoop (board g) (BOARD_H - 1) 0 of
       None \<Rightarrow> None
     | Some (b, cleared) \<Rightarrow>
         if cleared > 0 then
           (if nat cleared < length scoreTable then
              (let lc = linesCleared g + cleared
               in Some (g\<lparr>board := b,
                         score := score g + wrap32 (scoreTable ! nat cleared * level g),
                         linesCleared := lc,
                         level := 1 + c_div lc 10\<rparr>, cleared))
            else None)
         else Some (g\<lparr>board := b\<rparr>, cleared))"

subsection \<open>Spawning\<close>

text \<open>
  \<open>rnd\<close> is the value returned by \<^verbatim>\<open>rand()\<close>, which is never negative; the remainder
  is taken in \<^verbatim>\<open>size_t\<close>.
\<close>

definition spawnPiece :: "Game \<Rightarrow> nat \<Rightarrow> Game" where
  "spawnPiece g rnd =
    (let g1 = g\<lparr>curPieceId := nextPieceId g,
                nextPieceId := int (rnd mod length pieces),
                curRot := 0,
                curX := c_div BOARD_W 2 - 2,
                curY := - 2\<rparr>
     in if collides g1 (curPieceId g1) (curRot g1) (curX g1) (curY g1)
        then g1\<lparr>gameOver := True\<rparr> else g1)"

subsection \<open>The main loop\<close>

text \<open>
  The blocks of \<^verbatim>\<open>main\<close> that act on the game state, one definition per block. The
  terminal, the decoding of escape sequences and the clock are outside the model: a key is
  the character left after decoding, and \<open>elapsed\<close> is the outcome of the test
  \<^verbatim>\<open>elapsed >= gravityInterval\<close>.
\<close>

definition moveLeft :: "Game \<Rightarrow> Game" where
  "moveLeft g =
    (if \<not> collides g (curPieceId g) (curRot g) (curX g - 1) (curY g)
     then g\<lparr>curX := curX g - 1\<rparr> else g)"

definition moveRight :: "Game \<Rightarrow> Game" where
  "moveRight g =
    (if \<not> collides g (curPieceId g) (curRot g) (curX g + 1) (curY g)
     then g\<lparr>curX := curX g + 1\<rparr> else g)"

definition rotateCW :: "Game \<Rightarrow> Game" where
  "rotateCW g =
    (let newRot = c_mod (curRot g + 1) 4
     in if \<not> collides g (curPieceId g) newRot (curX g) (curY g)
        then g\<lparr>curRot := newRot\<rparr> else g)"

text \<open>\<^verbatim>\<open>placePiece(g); clearLines(g); spawnPiece(g);\<close>\<close>

definition lockAndSpawn :: "Game \<Rightarrow> nat \<Rightarrow> Game option" where
  "lockAndSpawn g rnd =
    (case clearLines (placePiece g) of
       None \<Rightarrow> None
     | Some (g', cleared) \<Rightarrow> Some (spawnPiece g' rnd))"

definition softDrop :: "Game \<Rightarrow> nat \<Rightarrow> Game option" where
  "softDrop g rnd =
    (if \<not> collides g (curPieceId g) (curRot g) (curX g) (curY g + 1)
     then Some (g\<lparr>curY := curY g + 1\<rparr>) else lockAndSpawn g rnd)"

text \<open>
  \<^verbatim>\<open>while(!collides(g, g.curPieceId, g.curRot, g.curX, g.curY+1)) g.curY++;\<close>
  The loop ends only when some cell of the piece is set, so it is a partial function.
\<close>

partial_function (option) dropLoop :: "Game \<Rightarrow> Game option" where
  "dropLoop g =
    (if \<not> collides g (curPieceId g) (curRot g) (curX g) (curY g + 1)
     then dropLoop (g\<lparr>curY := curY g + 1\<rparr>) else Some g)"

declare dropLoop.simps [code]

definition hardDrop :: "Game \<Rightarrow> nat \<Rightarrow> Game option" where
  "hardDrop g rnd =
    (case dropLoop g of None \<Rightarrow> None | Some g' \<Rightarrow> lockAndSpawn g' rnd)"

definition gravityStep :: "Game \<Rightarrow> nat \<Rightarrow> Game option" where
  "gravityStep g rnd =
    (if \<not> collides g (curPieceId g) (curRot g) (curX g) (curY g + 1)
     then Some (g\<lparr>curY := curY g + 1\<rparr>) else lockAndSpawn g rnd)"

text \<open>
  The dispatch on one key. The result holds the game, the pause flag and whether the
  input loop is left by \<^verbatim>\<open>break\<close>.
\<close>

definition handleKey :: "int \<Rightarrow> nat \<Rightarrow> Game \<times> bool \<Rightarrow> (Game \<times> bool \<times> bool) option" where
  "handleKey ch rnd st =
    (let g = fst st; paused = snd st in
     if ch = of_char CHR ''q'' \<or> ch = of_char CHR ''Q'' then Some (g\<lparr>gameOver := True\<rparr>, paused, True)
     else if ch = of_char CHR ''p'' \<or> ch = of_char CHR ''P'' then Some (g, \<not> paused, False)
     else if \<not> paused then
       (if ch = of_char CHR ''a'' \<or> ch = of_char CHR ''A'' then Some (moveLeft g, paused, False)
        else if ch = of_char CHR ''d'' \<or> ch = of_char CHR ''D'' then Some (moveRight g, paused, False)
        else if ch = of_char CHR ''s'' \<or> ch = of_char CHR ''S'' \<or> ch = of_char CHR ''B''
          then map_option (\<lambda>g'. (g', paused, False)) (softDrop g rnd)
        else if ch = of_char CHR ''w'' \<or> ch = of_char CHR ''W'' \<or> ch = of_char CHR ''A''
          then Some (rotateCW g, paused, False)
        else if ch = of_char CHR '' ''
          then map_option (\<lambda>g'. (g', paused, False)) (hardDrop g rnd)
        else Some (g, paused, False))
     else Some (g, paused, False))"

text \<open>
  \<^verbatim>\<open>while(kbHit())\<close>: the pending keys are a list, each with the value \<^verbatim>\<open>rand()\<close>
  would return if the key leads to a spawn.
\<close>

fun inputLoop :: "(int \<times> nat) list \<Rightarrow> Game \<times> bool \<Rightarrow> (Game \<times> bool) option" where
  "inputLoop [] st = Some st"
| "inputLoop ((ch, rnd) # rest) st =
    (if ch = - 1 then Some st
     else (case handleKey ch rnd st of
        None \<Rightarrow> None
      | Some (g, paused, brk) \<Rightarrow>
          if brk then Some (g, paused) else inputLoop rest (g, paused)))"

text \<open>
  One pass of \<^verbatim>\<open>while(true)\<close>. \<open>Inr g\<close>: the loop is left with the final state \<open>g\<close>;
  \<open>Inl (g, paused)\<close>: the state at the start of the next pass.
\<close>

definition mainIteration ::
  "(int \<times> nat) list \<Rightarrow> bool \<Rightarrow> nat \<Rightarrow> Game \<times> bool \<Rightarrow> ((Game \<times> bool) + Game) option" where
  "mainIteration keys elapsed rnd st =
    (if gameOver (fst st) then Some (Inr (fst st))
     else (case inputLoop keys st of
        None \<Rightarrow> None
      | Some (g, paused) \<Rightarrow>
          if paused then Some (Inl (g, paused))
          else if elapsed then map_option (\<lambda>g'. Inl (g', paused)) (gravityStep g rnd)
          else Some (Inl (g, paused))))"

text \<open>
  The start of \<^verbatim>\<open>main\<close>: an empty board, a random next kind and the first spawn. The
  fields that \<^verbatim>\<open>Game g;\<close> leaves without a value are all assigned by \<open>spawnPiece\<close>
  before they are read; they stand as 0 here.
\<close>

definition initGame :: "nat \<Rightarrow> nat \<Rightarrow> Game" where
  "initGame rnd0 rnd1 =
    spawnPiece
      \<lparr>board = replicate (nat BOARD_H) (replicate (nat BOARD_W) 0),
       curPieceId = 0, curRot = 0, curX = 0, curY = 0,
       nextPieceId = int (rnd0 mod length pieces),
       gameOver = False, score = 0, level = 1, linesCleared = 0\<rparr>
      rnd1"

subsection \<open>Quantities the properties speak about\<close>

definition filledCount :: "int list list \<Rightarrow> nat" where
  "filledCount b = sum_list (map (\<lambda>row. length (filter (\<lambda>v. v \<noteq> 0) row)) b)"

definition emptyRow :: "int list" where
  "emptyRow = replicate (nat BOARD_W) 0"

definition fullRowCount :: "int list list \<Rightarrow> nat" where
  "fullRowCount b = length (filter rowFull b)"

text \<open>
  What holds of the game between two operations of a session: the board has its
  dimensions and no full row, both kinds are catalogue kinds, and the level is 1 plus the
  total of lines div 10.
\<close>

definition sessionInv :: "Game \<Rightarrow> bool" where
  "sessionInv g \<longleftrightarrow>
     wf_board (board g) \<and> fullRowCount (board g) = 0
     \<and> 0 \<le> curPieceId g \<and> curPieceId g < 7 \<and> 0 \<le> nextPieceId g \<and> nextPieceId g < 7
     \<and> 0 \<le> linesCleared g \<and> level g = 1 + linesCleared g div 10"

section \<open>Properties\<close>

subsection \<open>Arithmetic of C++ on the values that occur\<close>

lemma c_mod_nonneg: "0 \<le> a \<Longrightarrow> 0 < b \<Longrightarrow> c_mod a b = a mod b"
  by (simp add: c_mod_def c_div_def sgn_if minus_mult_div_eq_mod)

lemma c_div_nonneg: "0 \<le> a \<Longrightarrow> 0 < b \<Longrightarrow> c_div a b = a div b"
  by (simp add: c_div_def sgn_if)

lemma c_mod_neg: "a < 0 \<Longrightarrow> 0 < b \<Longrightarrow> c_mod a b = - ((- a) mod b)"
proof -
  assume "a < 0" and "0 < b"
  then have "c_mod a b = a + b * ((- a) div b)"
    by (simp add: c_mod_def c_div_def sgn_if)
  moreover have "b * ((- a) div b) + (- a) mod b = - a"
    by (rule mult_div_mod_eq)
  ultimately show ?thesis by linarith
qed

text \<open>\<^verbatim>\<open>(times%4+4)%4\<close> is the residue of \<open>times\<close> modulo 4, also for negative values.\<close>

lemma rot_norm: "c_mod (c_mod t 4 + 4) 4 = t mod 4"
proof (cases "0 \<le> t")
  case True
  then have "c_mod t 4 = t mod 4" by (simp add: c_mod_nonneg)
  moreover have "0 \<le> t mod 4 + 4" by simp
  ultimately show ?thesis by (simp add: c_mod_nonneg)
next
  case False
  then have a: "c_mod t 4 = - ((- t) mod 4)" by (simp add: c_mod_neg)
  have "0 \<le> - ((- t) mod 4) + 4"
    using pos_mod_bound [of 4 "- t"] by linarith
  then have "c_mod (c_mod t 4 + 4) 4 = (- ((- t) mod 4) + 4) mod 4"
    using a by (simp add: c_mod_nonneg)
  also have "\<dots> = t mod 4" by presburger
  finally show ?thesis .
qed

subsection \<open>Index ranges and the catalogue, evaluated\<close>

lemma upt4: "[0..<4] = [0, 1, 2, 3]"
  by (simp add: upt_rec)

lemma upt3: "[0..<3] = [0, 1, 2]"
  by (simp add: upt_rec)

lemma upt2: "[0..<2] = [0, 1]"
  by (simp add: upt_rec)

lemma lt4_cases: "n < 4 \<Longrightarrow> n = 0 \<or> n = 1 \<or> n = 2 \<or> n = (3::nat)"
  by arith

lemma lt7_cases:
  "0 \<le> k \<Longrightarrow> k < 7 \<Longrightarrow> k = 0 \<or> k = 1 \<or> k = 2 \<or> k = 3 \<or> k = 4 \<or> k = 5 \<or> k = (6::int)"
  by arith

lemma frameCells_eq: "frameCells =
  [(0, 0), (0, 1), (0, 2), (0, 3), (1, 0), (1, 1), (1, 2), (1, 3),
   (2, 0), (2, 1), (2, 2), (2, 3), (3, 0), (3, 1), (3, 2), (3, 3)]"
  by (simp add: frameCells_def upt4)

lemma frameCells_set: "set frameCells = {0..<4} \<times> {0..<4}"
  by (auto simp: frameCells_def)

lemma pieces_eq: "pieces =
  [\<lparr>cells = Array4 (Array4 0 0 0 0) (Array4 1 1 1 1) (Array4 0 0 0 0) (Array4 0 0 0 0), size_p = 4\<rparr>,
   \<lparr>cells = Array4 (Array4 1 0 0 0) (Array4 1 1 1 0) (Array4 0 0 0 0) (Array4 0 0 0 0), size_p = 4\<rparr>,
   \<lparr>cells = Array4 (Array4 0 0 1 0) (Array4 1 1 1 0) (Array4 0 0 0 0) (Array4 0 0 0 0), size_p = 4\<rparr>,
   \<lparr>cells = Array4 (Array4 1 1 0 0) (Array4 1 1 0 0) (Array4 0 0 0 0) (Array4 0 0 0 0), size_p = 4\<rparr>,
   \<lparr>cells = Array4 (Array4 0 1 1 0) (Array4 1 1 0 0) (Array4 0 0 0 0) (Array4 0 0 0 0), size_p = 4\<rparr>,
   \<lparr>cells = Array4 (Array4 0 1 0 0) (Array4 1 1 1 0) (Array4 0 0 0 0) (Array4 0 0 0 0), size_p = 4\<rparr>,
   \<lparr>cells = Array4 (Array4 1 1 0 0) (Array4 0 1 1 0) (Array4 0 0 0 0) (Array4 0 0 0 0), size_p = 4\<rparr>]"
  by (simp add: pieces_def TETROMINO_def toPiece_def upt4 upt3 upt2 setCell_def getCell_def
      zeroCells_def Let_def)

lemma pieces_length: "length pieces = 7"
  by (simp add: pieces_def TETROMINO_def)

subsection \<open>Rotation\<close>

lemma rotateOnce_eq: "rotateOnce p = \<lparr>cells = Array4
   (Array4 (getCell (cells p) 3 0) (getCell (cells p) 2 0) (getCell (cells p) 1 0) (getCell (cells p) 0 0))
   (Array4 (getCell (cells p) 3 1) (getCell (cells p) 2 1) (getCell (cells p) 1 1) (getCell (cells p) 0 1))
   (Array4 (getCell (cells p) 3 2) (getCell (cells p) 2 2) (getCell (cells p) 1 2) (getCell (cells p) 0 2))
   (Array4 (getCell (cells p) 3 3) (getCell (cells p) 2 3) (getCell (cells p) 1 3) (getCell (cells p) 0 3)),
   size_p = 4\<rparr>"
  by (simp add: rotateOnce_def upt4 setCell_def zeroCells_def)

lemma rotateOnce_cell:
  assumes "r < 4" and "c < 4"
  shows "getCell (cells (rotateOnce p)) r c = getCell (cells p) (3 - c) r"
  using lt4_cases [OF assms(1)] lt4_cases [OF assms(2)]
  by (auto simp: rotateOnce_eq getCell_def)

lemma rotateOnce_four:
  "rotateOnce (rotateOnce (rotateOnce (rotateOnce p))) = \<lparr>cells = cells p, size_p = 4\<rparr>"
proof -
  obtain r0 r1 r2 r3 where cs: "cells p = Array4 r0 r1 r2 r3" by (cases "cells p")
  obtain a0 a1 a2 a3 where r0: "r0 = Array4 a0 a1 a2 a3" by (cases r0)
  obtain b0 b1 b2 b3 where r1: "r1 = Array4 b0 b1 b2 b3" by (cases r1)
  obtain c0 c1 c2 c3 where r2: "r2 = Array4 c0 c1 c2 c3" by (cases r2)
  obtain d0 d1 d2 d3 where r3: "r3 = Array4 d0 d1 d2 d3" by (cases r3)
  show ?thesis
    by (simp add: rotateOnce_eq getCell_def cs r0 r1 r2 r3)
qed

lemma rotateOnce_cong: "cells p = cells q \<Longrightarrow> rotateOnce p = rotateOnce q"
  by (simp add: rotateOnce_def)

lemma rotateLoop_add: "rotateLoop (m + n) p = rotateLoop n (rotateLoop m p)"
  by (induction m arbitrary: p) simp_all

lemma rotateLoop_cells_cong:
  "cells p = cells q \<Longrightarrow> cells (rotateLoop n p) = cells (rotateLoop n q)"
proof (cases n)
  case 0
  assume "cells p = cells q"
  with 0 show ?thesis by simp
next
  case (Suc k)
  assume "cells p = cells q"
  then have "rotateOnce p = rotateOnce q" by (rule rotateOnce_cong)
  with Suc show ?thesis by simp
qed

lemma rotateLoop_4: "rotateLoop 4 p = \<lparr>cells = cells p, size_p = 4\<rparr>"
  by (simp add: eval_nat_numeral rotateOnce_four)

lemma rotateLoop_4k: "cells (rotateLoop (4 * k + m) p) = cells (rotateLoop m p)"
proof (induction k arbitrary: p)
  case 0
  show ?case by simp
next
  case (Suc k)
  have "4 * Suc k + m = 4 + (4 * k + m)" by simp
  then have "cells (rotateLoop (4 * Suc k + m) p) = cells (rotateLoop (4 * k + m) (rotateLoop 4 p))"
    by (simp only: rotateLoop_add)
  also have "\<dots> = cells (rotateLoop m (rotateLoop 4 p))" by (rule Suc.IH)
  also have "\<dots> = cells (rotateLoop m p)"
    by (rule rotateLoop_cells_cong) (simp add: rotateLoop_4)
  finally show ?case .
qed

lemma rotateLoop_mod: "cells (rotateLoop (n mod 4) p) = cells (rotateLoop n p)"
proof -
  have "n = 4 * (n div 4) + n mod 4" by simp
  then have "cells (rotateLoop n p) = cells (rotateLoop (4 * (n div 4) + n mod 4) p)" by simp
  then show ?thesis by (simp only: rotateLoop_4k)
qed

lemma rotateLoop_size: "size_p p = 4 \<Longrightarrow> size_p (rotateLoop n p) = 4"
  by (induction n arbitrary: p) (simp_all add: rotateOnce_def)

lemma rotatePiece_loop: "rotatePiece p t = rotateLoop (nat (t mod 4)) p"
  by (simp add: rotatePiece_def rot_norm)

lemma rotatePiece_add_cells:
  "cells (rotatePiece p (t1 + t2)) = cells (rotatePiece (rotatePiece p t1) t2)"
proof -
  have e: "nat ((t1 + t2) mod 4) = (nat (t1 mod 4) + nat (t2 mod 4)) mod 4"
  proof -
    have "int ((nat (t1 mod 4) + nat (t2 mod 4)) mod 4) = (t1 mod 4 + t2 mod 4) mod 4"
      by (simp add: zmod_int)
    also have "\<dots> = (t1 + t2) mod 4" by (simp add: mod_add_eq)
    finally have "nat (int ((nat (t1 mod 4) + nat (t2 mod 4)) mod 4)) = nat ((t1 + t2) mod 4)"
      by (rule arg_cong)
    then show ?thesis by (simp only: nat_int)
  qed
  have "cells (rotatePiece (rotatePiece p t1) t2)
        = cells (rotateLoop (nat (t1 mod 4) + nat (t2 mod 4)) p)"
    by (simp add: rotatePiece_loop rotateLoop_add)
  also have "\<dots> = cells (rotateLoop ((nat (t1 mod 4) + nat (t2 mod 4)) mod 4) p)"
    by (simp only: rotateLoop_mod)
  finally show ?thesis by (simp add: rotatePiece_loop e)
qed

lemma rotatePiece_size: "size_p p = 4 \<Longrightarrow> size_p (rotatePiece p t) = 4"
  by (simp add: rotatePiece_loop rotateLoop_size)

text \<open>
  C7. Rotation of the 4x4 frame is cyclic of order 4. One clockwise rotation gives
  \<open>new[r][c] = old[3-c][r]\<close> for all \<open>r\<close>, \<open>c\<close> below 4. \<open>rotatePiece p 4\<close> returns \<open>p\<close>, and
  four single rotations return the cells of \<open>p\<close>. The cells of \<open>rotatePiece p (t1 + t2)\<close> are
  those of \<open>rotatePiece (rotatePiece p t1) t2\<close>; this holds for all integers, in particular
  the non-negative ones. The field \<^verbatim>\<open>size\<close> is set to 4 by every rotation step, so the whole
  structures agree as soon as \<open>p\<close> has size 4, which every catalogue piece has.
\<close>

theorem rotatePiece_cyclic:
  assumes "r < 4" and "c < 4" and "0 \<le> t1" and "0 \<le> t2"
  shows "getCell (cells (rotatePiece p 1)) r c = getCell (cells p) (3 - c) r
       \<and> rotatePiece p 4 = p
       \<and> cells (rotatePiece (rotatePiece (rotatePiece (rotatePiece p 1) 1) 1) 1) = cells p
       \<and> cells (rotatePiece p (t1 + t2)) = cells (rotatePiece (rotatePiece p t1) t2)
       \<and> (size_p p = 4 \<longrightarrow> rotatePiece p (t1 + t2) = rotatePiece (rotatePiece p t1) t2)"
proof -
  have one: "rotatePiece p 1 = rotateOnce p" for p
    by (simp add: rotatePiece_loop)
  have a: "getCell (cells (rotatePiece p 1)) r c = getCell (cells p) (3 - c) r"
    using assms(1,2) by (simp add: one rotateOnce_cell)
  have b: "rotatePiece p 4 = p"
    by (simp add: rotatePiece_loop)
  have c: "cells (rotatePiece (rotatePiece (rotatePiece (rotatePiece p 1) 1) 1) 1) = cells p"
    by (simp add: one rotateOnce_four)
  have d: "cells (rotatePiece p (t1 + t2)) = cells (rotatePiece (rotatePiece p t1) t2)"
    by (rule rotatePiece_add_cells)
  have e: "rotatePiece p (t1 + t2) = rotatePiece (rotatePiece p t1) t2" if "size_p p = 4"
  proof (rule Piece.equality)
    show "cells (rotatePiece p (t1 + t2)) = cells (rotatePiece (rotatePiece p t1) t2)"
      by (rule d)
    show "size_p (rotatePiece p (t1 + t2)) = size_p (rotatePiece (rotatePiece p t1) t2)"
      using that by (simp add: rotatePiece_size)
    show "Piece.more (rotatePiece p (t1 + t2)) = Piece.more (rotatePiece (rotatePiece p t1) t2)"
      by simp
  qed
  from a b c d e show ?thesis by blast
qed

theorem rotatePiece_cyclic_witness:
  "(0::nat) < 4 \<and> (2::nat) < 4 \<and> (0::int) \<le> 3 \<and> (0::int) \<le> 2
   \<and> size_p (pieces ! 1) = 4
   \<and> getCell (cells (rotatePiece (pieces ! 1) 1)) 0 2 = 1
   \<and> getCell (cells (pieces ! 1)) (3 - 2) 0 = 1
   \<and> rotatePiece (pieces ! 1) 4 = pieces ! 1
   \<and> rotatePiece (pieces ! 1) (3 + 2) = rotatePiece (rotatePiece (pieces ! 1) 3) 2"
  using rotatePiece_cyclic [of 0 2 3 2 "pieces ! 1"]
  by (simp add: pieces_eq getCell_def)

subsection \<open>Four cells in every orientation\<close>

lemma rotateLoop_count:
  assumes "n < 4" and "0 \<le> k" and "k < 7"
  shows "cellCount (cells (rotateLoop n (pieces ! nat k))) = 4"
  using lt4_cases [OF assms(1)] lt7_cases [OF assms(2,3)]
  by (elim disjE; simp add: pieces_eq eval_nat_numeral rotateOnce_eq getCell_def cellCount_def
      frameCells_eq)

text \<open>
  C8. For each of the 7 piece kinds and every orientation in \<open>{0, 1, 2, 3}\<close>, the rotated
  4x4 shape has exactly 4 cells set.
\<close>

theorem pieces_four_cells:
  assumes "0 \<le> k" and "k < 7" and "rot \<in> {0, 1, 2, 3}"
  shows "length pieces = 7 \<and> cellCount (cells (rotatePiece (pieces ! nat k) rot)) = 4"
proof -
  have "nat (rot mod 4) < 4" by simp
  then have "cellCount (cells (rotateLoop (nat (rot mod 4)) (pieces ! nat k))) = 4"
    using assms(1,2) by (rule rotateLoop_count)
  then show ?thesis by (simp add: rotatePiece_loop pieces_length)
qed

theorem pieces_four_cells_witness:
  "(0::int) \<le> 4 \<and> (4::int) < 7 \<and> (3::int) \<in> {0, 1, 2, 3}
   \<and> cellCount (cells (rotatePiece (pieces ! nat 4) 3)) = 4
   \<and> cells (rotatePiece (pieces ! nat 4) 3)
       = Array4 (Array4 0 0 0 0) (Array4 1 0 0 0) (Array4 1 1 0 0) (Array4 0 1 0 0)"
proof -
  have "cells (rotatePiece (pieces ! nat 4) 3)
       = Array4 (Array4 0 0 0 0) (Array4 1 0 0 0) (Array4 1 1 0 0) (Array4 0 1 0 0)"
    by (simp add: pieces_eq rotatePiece_loop eval_nat_numeral rotateOnce_eq getCell_def)
  then show ?thesis
    using pieces_four_cells [of 4 3] by simp
qed

subsection \<open>Collision test\<close>

lemma all_lt4: "(\<forall>r<4. P r) \<longleftrightarrow> P 0 \<and> P 1 \<and> P 2 \<and> P (3::nat)"
  using lt4_cases by auto

lemma ex_lt4: "(\<exists>r<4. P r) \<longleftrightarrow> P 0 \<or> P 1 \<or> P 2 \<or> P (3::nat)"
proof
  assume "\<exists>r<4. P r"
  then obtain r where "r < 4" and "P r" by blast
  with lt4_cases [of r] show "P 0 \<or> P 1 \<or> P 2 \<or> P 3" by auto
next
  have "(0::nat) < 4" "(1::nat) < 4" "(2::nat) < 4" "(3::nat) < 4" by simp_all
  moreover assume "P 0 \<or> P 1 \<or> P 2 \<or> P 3"
  ultimately show "\<exists>r<4. P r" by blast
qed

lemma collidesCells_Cons:
  "collidesCells b cs x y ((r, c) # rest) \<longleftrightarrow>
    (getCell cs r c \<noteq> 0 \<and>
       (x + int c < 0 \<or> BOARD_W \<le> x + int c \<or> BOARD_H \<le> y + int r \<or>
        (0 \<le> y + int r \<and> b ! nat (y + int r) ! nat (x + int c) \<noteq> 0)))
    \<or> collidesCells b cs x y rest"
  by (auto simp: Let_def)

lemma collidesCells_iff:
  "collidesCells b cs x y cl \<longleftrightarrow>
    (\<exists>(r, c) \<in> set cl. getCell cs r c \<noteq> 0 \<and>
       (x + int c < 0 \<or> BOARD_W \<le> x + int c \<or> BOARD_H \<le> y + int r \<or>
        (0 \<le> y + int r \<and> b ! nat (y + int r) ! nat (x + int c) \<noteq> 0)))"
proof (induction cl)
  case Nil
  show ?case by simp
next
  case (Cons rc rest)
  obtain r c where rc: "rc = (r, c)" by (cases rc)
  show ?case
    unfolding rc collidesCells_Cons Cons.IH by simp
qed

text \<open>
  C1. \<open>collides\<close> answers true exactly when some cell set in the rotated 4x4 shape lands
  at a column below 0, at a column from \<open>BOARD_W\<close> on, at a row from \<open>BOARD_H\<close> on, or at a
  row from 0 on whose board cell is occupied. A cell that lands at a negative row is not
  compared with the board: when every set cell lands above the board and between the
  walls, the placement is legal whatever the board holds.
\<close>

theorem collides_iff:
  "(collides g k rot x y \<longleftrightarrow>
     (\<exists>r<4. \<exists>c<4. getCell (cells (rotatePiece (pieces ! nat k) rot)) r c \<noteq> 0 \<and>
        (x + int c < 0 \<or> BOARD_W \<le> x + int c \<or> BOARD_H \<le> y + int r \<or>
         (0 \<le> y + int r \<and> board g ! nat (y + int r) ! nat (x + int c) \<noteq> 0))))
   \<and> ((\<forall>r<4. \<forall>c<4. getCell (cells (rotatePiece (pieces ! nat k) rot)) r c \<noteq> 0 \<longrightarrow>
          y + int r < 0 \<and> 0 \<le> x + int c \<and> x + int c < BOARD_W)
        \<longrightarrow> \<not> collides g k rot x y)"
proof -
  have main: "collides g k rot x y \<longleftrightarrow>
     (\<exists>r<4. \<exists>c<4. getCell (cells (rotatePiece (pieces ! nat k) rot)) r c \<noteq> 0 \<and>
        (x + int c < 0 \<or> BOARD_W \<le> x + int c \<or> BOARD_H \<le> y + int r \<or>
         (0 \<le> y + int r \<and> board g ! nat (y + int r) ! nat (x + int c) \<noteq> 0)))"
    unfolding collides_def Let_def collidesCells_iff frameCells_set
    by (simp add: Bex_def)
  have "\<not> collides g k rot x y"
    if h: "\<forall>r<4. \<forall>c<4. getCell (cells (rotatePiece (pieces ! nat k) rot)) r c \<noteq> 0 \<longrightarrow>
          y + int r < 0 \<and> 0 \<le> x + int c \<and> x + int c < BOARD_W"
  proof
    assume "collides g k rot x y"
    with main obtain r c where "r < 4" "c < 4"
      and "getCell (cells (rotatePiece (pieces ! nat k) rot)) r c \<noteq> 0"
      and hit: "x + int c < 0 \<or> BOARD_W \<le> x + int c \<or> BOARD_H \<le> y + int r \<or>
         (0 \<le> y + int r \<and> board g ! nat (y + int r) ! nat (x + int c) \<noteq> 0)"
      by blast
    with h have "y + int r < 0 \<and> 0 \<le> x + int c \<and> x + int c < BOARD_W" by blast
    with hit show False by (simp add: BOARD_H_def)
  qed
  with main show ?thesis by blast
qed

theorem collides_iff_witness:
  "\<not> collides ((initGame 3 5)\<lparr>board := replicate 20 (replicate 10 1)\<rparr>) 3 0 4 (- 2)
   \<and> collides ((initGame 3 5)\<lparr>board := replicate 20 (replicate 10 1)\<rparr>) 3 0 4 (- 1)
   \<and> collides (initGame 3 5) 3 0 9 5
   \<and> collides (initGame 3 5) 3 0 (- 1) 5
   \<and> collides (initGame 3 5) 3 0 4 19
   \<and> \<not> collides (initGame 3 5) 3 0 4 18"
proof -
  have cs: "cells (rotatePiece (pieces ! 3) 0)
       = Array4 (Array4 1 1 0 0) (Array4 1 1 0 0) (Array4 0 0 0 0) (Array4 0 0 0 0)"
    by (simp add: pieces_eq rotatePiece_loop)
  have b0: "board (initGame 3 5) = replicate 20 (replicate 10 0)"
    by (simp add: initGame_def spawnPiece_def Let_def BOARD_W_def BOARD_H_def)
  show ?thesis
    using collides_iff [of "(initGame 3 5)\<lparr>board := replicate 20 (replicate 10 1)\<rparr>" 3 0 4 "- 2"]
          collides_iff [of "(initGame 3 5)\<lparr>board := replicate 20 (replicate 10 1)\<rparr>" 3 0 4 "- 1"]
          collides_iff [of "initGame 3 5" 3 0 9 5]
          collides_iff [of "initGame 3 5" 3 0 "- 1" 5]
          collides_iff [of "initGame 3 5" 3 0 4 19]
          collides_iff [of "initGame 3 5" 3 0 4 18]
    by (simp add: cs b0 all_lt4 ex_lt4 getCell_def BOARD_W_def BOARD_H_def)
qed

subsection \<open>Locking a piece\<close>

lemma wf_board_iff:
  "wf_board b \<longleftrightarrow> length b = 20 \<and> (\<forall>i<20. length (b ! i) = 10)"
  by (auto simp: wf_board_def BOARD_H_def BOARD_W_def list_all_length)

lemma wf_board_update:
  assumes "wf_board b" and "i < 20"
  shows "wf_board (b[i := (b ! i)[j := v]])"
  using assms by (auto simp: wf_board_iff nth_list_update)

lemma update_nth_nth:
  assumes "wf_board b" and "i < 20" and "j < 10" and "i' < 20" and "j' < 10"
  shows "b[i' := (b ! i')[j' := v]] ! i ! j = (if i = i' \<and> j = j' then v else b ! i ! j)"
  using assms by (auto simp: wf_board_iff nth_list_update)

lemma placeCells_Cons:
  "placeCells b cs x y v ((r, c) # rest) =
    (if getCell cs r c \<noteq> 0 \<and> 0 \<le> y + int r \<and> y + int r < BOARD_H
        \<and> 0 \<le> x + int c \<and> x + int c < BOARD_W
     then placeCells (b[nat (y + int r) := (b ! nat (y + int r))[nat (x + int c) := v]]) cs x y v rest
     else placeCells b cs x y v rest)"
  by (simp add: Let_def)

lemma placeCells_wf: "wf_board b \<Longrightarrow> wf_board (placeCells b cs x y v cl)"
proof (induction cl arbitrary: b)
  case Nil
  then show ?case by simp
next
  case (Cons rc rest)
  obtain r c where rc: "rc = (r, c)" by (cases rc)
  show ?case
  proof (cases "getCell cs r c \<noteq> 0 \<and> 0 \<le> y + int r \<and> y + int r < BOARD_H
        \<and> 0 \<le> x + int c \<and> x + int c < BOARD_W")
    case True
    then have "nat (y + int r) < 20" unfolding BOARD_H_def by linarith
    with Cons.prems have "wf_board (b[nat (y + int r) := (b ! nat (y + int r))[nat (x + int c) := v]])"
      by (rule wf_board_update)
    then have "wf_board (placeCells (b[nat (y + int r) := (b ! nat (y + int r))[nat (x + int c) := v]]) cs x y v rest)"
      by (rule Cons.IH)
    with True show ?thesis unfolding rc placeCells_Cons by simp
  next
    case False
    from Cons.prems have "wf_board (placeCells b cs x y v rest)" by (rule Cons.IH)
    with False show ?thesis unfolding rc placeCells_Cons by auto
  qed
qed

lemma placeCells_nth:
  assumes "wf_board b" and "i < 20" and "j < 10"
  shows "placeCells b cs x y v cl ! i ! j =
    (if \<exists>(r, c) \<in> set cl. getCell cs r c \<noteq> 0 \<and> y + int r = int i \<and> x + int c = int j
     then v else b ! i ! j)"
  using assms(1)
proof (induction cl arbitrary: b)
  case Nil
  then show ?case by simp
next
  case (Cons rc rest)
  obtain r c where rc: "rc = (r, c)" by (cases rc)
  show ?case
  proof (cases "getCell cs r c \<noteq> 0 \<and> 0 \<le> y + int r \<and> y + int r < BOARD_H
        \<and> 0 \<le> x + int c \<and> x + int c < BOARD_W")
    case True
    let ?b' = "b[nat (y + int r) := (b ! nat (y + int r))[nat (x + int c) := v]]"
    from True have ir: "nat (y + int r) < 20" and jc: "nat (x + int c) < 10"
      unfolding BOARD_H_def BOARD_W_def by linarith+
    from Cons.prems ir have wf': "wf_board ?b'" by (rule wf_board_update)
    have here: "?b' ! i ! j = (if i = nat (y + int r) \<and> j = nat (x + int c) then v else b ! i ! j)"
      using Cons.prems assms(2,3) ir jc by (rule update_nth_nth)
    have "placeCells b cs x y v (rc # rest) ! i ! j = placeCells ?b' cs x y v rest ! i ! j"
      using True unfolding rc placeCells_Cons by simp
    also have "\<dots> = (if \<exists>(r, c) \<in> set rest. getCell cs r c \<noteq> 0 \<and> y + int r = int i \<and> x + int c = int j
                     then v else ?b' ! i ! j)"
      using wf' by (rule Cons.IH)
    finally have res: "placeCells b cs x y v (rc # rest) ! i ! j =
        (if \<exists>(r, c) \<in> set rest. getCell cs r c \<noteq> 0 \<and> y + int r = int i \<and> x + int c = int j
         then v else ?b' ! i ! j)" .
    have eq_i: "(i = nat (y + int r)) = (y + int r = int i)" using True by linarith
    have eq_j: "(j = nat (x + int c)) = (x + int c = int j)" using True by linarith
    have ex: "(\<exists>(r, c) \<in> set (rc # rest). getCell cs r c \<noteq> 0 \<and> y + int r = int i \<and> x + int c = int j)
        \<longleftrightarrow> (y + int r = int i \<and> x + int c = int j)
          \<or> (\<exists>(r, c) \<in> set rest. getCell cs r c \<noteq> 0 \<and> y + int r = int i \<and> x + int c = int j)"
      using True by (simp add: rc)
    show ?thesis unfolding res ex here eq_i eq_j by auto
  next
    case False
    have "placeCells b cs x y v (rc # rest) ! i ! j = placeCells b cs x y v rest ! i ! j"
      using False unfolding rc placeCells_Cons by auto
    also have "\<dots> = (if \<exists>(r, c) \<in> set rest. getCell cs r c \<noteq> 0 \<and> y + int r = int i \<and> x + int c = int j
                     then v else b ! i ! j)"
      using Cons.prems by (rule Cons.IH)
    finally have res: "placeCells b cs x y v (rc # rest) ! i ! j =
        (if \<exists>(r, c) \<in> set rest. getCell cs r c \<noteq> 0 \<and> y + int r = int i \<and> x + int c = int j
         then v else b ! i ! j)" .
    have "\<not> (getCell cs r c \<noteq> 0 \<and> y + int r = int i \<and> x + int c = int j)"
      using False assms(2,3) unfolding BOARD_H_def BOARD_W_def by linarith
    then have ex: "(\<exists>(r, c) \<in> set (rc # rest). getCell cs r c \<noteq> 0 \<and> y + int r = int i \<and> x + int c = int j)
        \<longleftrightarrow> (\<exists>(r, c) \<in> set rest. getCell cs r c \<noteq> 0 \<and> y + int r = int i \<and> x + int c = int j)"
      unfolding rc by auto
    show ?thesis unfolding res ex by simp
  qed
qed

text \<open>
  C10. Locking keeps the board at \<open>BOARD_H\<close> rows of \<open>BOARD_W\<close> columns, wherever the
  anchor of the piece is. A board cell is written exactly when a set cell of the rotated
  piece lands on it, and then it holds the kind identifier plus one, which is not zero;
  every other board cell keeps its value, and set cells of the piece that land outside the
  board are skipped. No other field of the game changes.
\<close>

theorem placePiece_cells:
  assumes "wf_board (board g)" and "0 \<le> curPieceId g" and "curPieceId g < 7"
    and "i < nat BOARD_H" and "j < nat BOARD_W"
  shows "wf_board (board (placePiece g))
       \<and> board (placePiece g) ! i ! j =
           (if \<exists>r<4. \<exists>c<4. getCell (cells (rotatePiece (pieces ! nat (curPieceId g)) (curRot g))) r c \<noteq> 0
                 \<and> curY g + int r = int i \<and> curX g + int c = int j
            then curPieceId g + 1 else board g ! i ! j)
       \<and> curPieceId g + 1 \<noteq> 0
       \<and> placePiece g = g\<lparr>board := board (placePiece g)\<rparr>"
proof -
  let ?cs = "cells (rotatePiece (pieces ! nat (curPieceId g)) (curRot g))"
  have b: "board (placePiece g) = placeCells (board g) ?cs (curX g) (curY g) (curPieceId g + 1) frameCells"
    by (simp add: placePiece_def Let_def)
  have ij: "i < 20" "j < 10" using assms(4,5) by (simp_all add: BOARD_H_def BOARD_W_def)
  have 1: "wf_board (board (placePiece g))"
    unfolding b using assms(1) by (rule placeCells_wf)
  have 2: "board (placePiece g) ! i ! j =
           (if \<exists>r<4. \<exists>c<4. getCell ?cs r c \<noteq> 0 \<and> curY g + int r = int i \<and> curX g + int c = int j
            then curPieceId g + 1 else board g ! i ! j)"
    unfolding b placeCells_nth [OF assms(1) ij] frameCells_set
    by (simp add: Bex_def)
  have 3: "curPieceId g + 1 \<noteq> 0" using assms(2) by simp
  have 4: "placePiece g = g\<lparr>board := board (placePiece g)\<rparr>"
    by (simp add: placePiece_def Let_def)
  from 1 2 3 4 show ?thesis by blast
qed


text \<open>The game as \<^verbatim>\<open>main\<close> starts it when \<^verbatim>\<open>rand()\<close> returns 3 and then 5.\<close>

lemma initGame_3_5:
  "initGame 3 5 = \<lparr>board = replicate 20 (replicate 10 0), curPieceId = 3, curRot = 0, curX = 3,
     curY = - 2, nextPieceId = 5, gameOver = False, score = 0, level = 1, linesCleared = 0\<rparr>"
proof -
  have cs: "cells (rotatePiece (pieces ! 3) 0)
       = Array4 (Array4 1 1 0 0) (Array4 1 1 0 0) (Array4 0 0 0 0) (Array4 0 0 0 0)"
    by (simp add: pieces_eq rotatePiece_loop)
  show ?thesis
    by (simp add: initGame_def spawnPiece_def Let_def pieces_length collides_def cs frameCells_eq
        getCell_def BOARD_W_def BOARD_H_def c_div_def)
qed

theorem placePiece_cells_witness:
  "wf_board (board ((initGame 3 5)\<lparr>curX := 9, curY := - 1\<rparr>))
   \<and> (0::nat) < nat BOARD_H \<and> (9::nat) < nat BOARD_W \<and> (8::nat) < nat BOARD_W
   \<and> wf_board (board (placePiece ((initGame 3 5)\<lparr>curX := 9, curY := - 1\<rparr>)))
   \<and> board (placePiece ((initGame 3 5)\<lparr>curX := 9, curY := - 1\<rparr>)) ! 0 ! 9 = 4
   \<and> board (placePiece ((initGame 3 5)\<lparr>curX := 9, curY := - 1\<rparr>)) ! 0 ! 8 = 0"
proof -
  have cs: "cells (rotatePiece (pieces ! 3) 0)
       = Array4 (Array4 1 1 0 0) (Array4 1 1 0 0) (Array4 0 0 0 0) (Array4 0 0 0 0)"
    by (simp add: pieces_eq rotatePiece_loop)
  have wf: "wf_board (replicate 20 (replicate 10 0))"
    by (simp add: wf_board_iff)
  show ?thesis
    using placePiece_cells [of "(initGame 3 5)\<lparr>curX := 9, curY := - 1\<rparr>" 0 9]
          placePiece_cells [of "(initGame 3 5)\<lparr>curX := 9, curY := - 1\<rparr>" 0 8]
    by (simp add: initGame_3_5 wf cs BOARD_H_def BOARD_W_def ex_lt4 getCell_def)
qed

subsection \<open>Clearing full rows\<close>

lemma clearLoop_inv:
  "r < int (length b) \<Longrightarrow> - 1 \<le> r \<Longrightarrow>
   clearLoop b r cleared =
     Some (replicate (length (filter rowFull (take (nat (r + 1)) b))) (replicate (nat BOARD_W) 0)
            @ filter (\<lambda>row. \<not> rowFull row) (take (nat (r + 1)) b) @ drop (nat (r + 1)) b,
           cleared + int (length (filter rowFull (take (nat (r + 1)) b))))"
proof (induction b r cleared rule: clearLoop.induct)
  case (1 b r cleared)
  show ?case
  proof (cases "r < 0")
    case True
    with "1.prems" have "r = - 1" by simp
    then show ?thesis by (subst clearLoop.simps) simp
  next
    case nonneg: False
    with "1.prems" have rlt: "nat r < length b" by simp
    from "1.prems" have inr: "\<not> int (length b) \<le> r" by simp
    have nr: "nat (r + 1) = Suc (nat r)" using nonneg by simp
    have tk: "take (Suc (nat r)) b = take (nat r) b @ [b ! nat r]"
      using rlt by (simp add: take_Suc_conv_app_nth)
    show ?thesis
    proof (cases "rowFull (b ! nat r)")
      case True
      let ?b' = "removeRow b (nat r)"
      have b': "?b' = replicate (nat BOARD_W) 0 # take (nat r) b @ drop (Suc (nat r)) b"
        using rlt by (rule removeRow_eq)
      have len: "length ?b' = length b" using rlt by (simp add: b')
      have tk': "take (Suc (nat r)) ?b' = replicate (nat BOARD_W) 0 # take (nat r) b"
        using rlt by (simp add: b')
      have dr': "drop (Suc (nat r)) ?b' = drop (Suc (nat r)) b"
        using rlt by (simp add: b')
      have "clearLoop b r cleared = clearLoop ?b' r (cleared + 1)"
        using nonneg inr True by (subst clearLoop.simps) simp
      also have "\<dots> = Some (replicate (length (filter rowFull (take (nat (r + 1)) ?b'))) (replicate (nat BOARD_W) 0)
            @ filter (\<lambda>row. \<not> rowFull row) (take (nat (r + 1)) ?b') @ drop (nat (r + 1)) ?b',
           cleared + 1 + int (length (filter rowFull (take (nat (r + 1)) ?b'))))"
        using "1.IH"(1) [OF nonneg inr True] nonneg "1.prems" len by simp
      finally show ?thesis
        using True by (simp add: nr tk tk' dr' emptyRow_not_full replicate_append_same)
    next
      case False
      have "clearLoop b r cleared = clearLoop b (r - 1) cleared"
        using nonneg inr False by (subst clearLoop.simps) simp
      also have "\<dots> = Some (replicate (length (filter rowFull (take (nat (r - 1 + 1)) b))) (replicate (nat BOARD_W) 0)
            @ filter (\<lambda>row. \<not> rowFull row) (take (nat (r - 1 + 1)) b) @ drop (nat (r - 1 + 1)) b,
           cleared + int (length (filter rowFull (take (nat (r - 1 + 1)) b))))"
        using "1.IH"(2) [OF nonneg inr False] nonneg "1.prems" by simp
      finally show ?thesis
        using False rlt by (simp add: nr tk Cons_nth_drop_Suc)
    qed
  qed
qed

lemma clearLoop_full:
  assumes "wf_board b"
  shows "clearLoop b (BOARD_H - 1) 0 =
    Some (replicate (fullRowCount b) emptyRow @ filter (\<lambda>row. \<not> rowFull row) b,
          int (fullRowCount b))"
proof -
  from assms have len: "length b = 20" by (simp add: wf_board_iff)
  then have "clearLoop b 19 0 =
     Some (replicate (length (filter rowFull (take (nat (19 + 1)) b))) (replicate (nat BOARD_W) 0)
            @ filter (\<lambda>row. \<not> rowFull row) (take (nat (19 + 1)) b) @ drop (nat (19 + 1)) b,
           0 + int (length (filter rowFull (take (nat (19 + 1)) b))))"
    by (intro clearLoop_inv) simp_all
  with len show ?thesis
    by (simp add: BOARD_H_def fullRowCount_def emptyRow_def)
qed

lemma clearLoop_mono:
  "clearLoop b r cleared = Some (b', n) \<Longrightarrow> cleared \<le> n"
proof (induction b r cleared rule: clearLoop.induct)
  case (1 b r cleared)
  show ?case
  proof (cases "r < 0")
    case True
    with "1.prems" show ?thesis by (subst (asm) clearLoop.simps) simp
  next
    case nonneg: False
    show ?thesis
    proof (cases "int (length b) \<le> r")
      case True
      with nonneg "1.prems" show ?thesis by (subst (asm) clearLoop.simps) simp
    next
      case inr: False
      show ?thesis
      proof (cases "rowFull (b ! nat r)")
        case True
        with nonneg inr "1.prems" have "clearLoop (removeRow b (nat r)) r (cleared + 1) = Some (b', n)"
          by (subst (asm) clearLoop.simps) simp
        with "1.IH"(1) [OF nonneg inr True] show ?thesis by simp
      next
        case False
        with nonneg inr "1.prems" have "clearLoop b (r - 1) cleared = Some (b', n)"
          by (subst (asm) clearLoop.simps) simp
        with "1.IH"(2) [OF nonneg inr False] show ?thesis by simp
      qed
    qed
  qed
qed

lemma filledCount_append: "filledCount (xs @ ys) = filledCount xs + filledCount ys"
  by (simp add: filledCount_def)

lemma filledCount_empty: "filledCount (replicate n emptyRow) = 0"
  by (simp add: filledCount_def emptyRow_def)

lemma filledCount_split:
  "filledCount b = filledCount (filter P b) + filledCount (filter (\<lambda>row. \<not> P row) b)"
  by (induction b) (simp_all add: filledCount_def)

lemma rowFull_filled:
  assumes "rowFull row" and "length row = 10"
  shows "length (filter (\<lambda>v. v \<noteq> 0) row) = 10"
proof -
  from assms(1) have "\<forall>c<10. row ! c \<noteq> 0"
    by (simp add: rowFull_def BOARD_W_def list_all_iff)
  with assms(2) have "\<forall>v \<in> set row. v \<noteq> 0"
    by (auto simp: in_set_conv_nth)
  then have "filter (\<lambda>v. v \<noteq> 0) row = row" by (simp add: filter_id_conv)
  with assms(2) show ?thesis by simp
qed

lemma filledCount_full:
  "list_all (\<lambda>row. length row = 10) b \<Longrightarrow>
   filledCount (filter rowFull b) = length (filter rowFull b) * 10"
  by (induction b) (simp_all add: filledCount_def rowFull_filled)

lemma compact_length:
  "length (replicate (length (filter P b)) e @ filter (\<lambda>row. \<not> P row) b) = length b"
  using sum_length_filter_compl [of P b] by simp

lemma compact_wf:
  assumes "wf_board b"
  shows "wf_board (replicate (fullRowCount b) emptyRow @ filter (\<lambda>row. \<not> rowFull row) b)"
proof -
  from assms have "length b = nat BOARD_H" and "list_all (\<lambda>row. length row = nat BOARD_W) b"
    by (simp_all add: wf_board_def)
  then show ?thesis
    unfolding wf_board_def fullRowCount_def compact_length
    by (auto simp: emptyRow_def list_all_iff)
qed

lemma clearLines_eval:
  assumes "wf_board (board g)" and "fullRowCount (board g) \<le> 4"
  shows "clearLines g =
    Some (if fullRowCount (board g) = 0
          then g\<lparr>board := replicate (fullRowCount (board g)) emptyRow @ filter (\<lambda>row. \<not> rowFull row) (board g)\<rparr>
          else g\<lparr>board := replicate (fullRowCount (board g)) emptyRow @ filter (\<lambda>row. \<not> rowFull row) (board g),
                 score := score g + wrap32 (scoreTable ! fullRowCount (board g) * level g),
                 linesCleared := linesCleared g + int (fullRowCount (board g)),
                 level := 1 + c_div (linesCleared g + int (fullRowCount (board g))) 10\<rparr>,
          int (fullRowCount (board g)))"
  using assms(2)
  by (simp add: clearLines_def clearLoop_full [OF assms(1)] Let_def scoreTable_def)


text \<open>
  C2. On a board of \<open>BOARD_H\<close> rows and \<open>BOARD_W\<close> columns the row scan of
  \<^verbatim>\<open>clearLines\<close> removes exactly the full rows: the board it leaves consists of as many
  empty rows as there were full ones, followed by the rows that were not full in their
  original order, and the count it returns is the number of full rows. The board keeps its
  dimensions and the number of filled cells drops by the count times \<open>BOARD_W\<close>. With no
  full row the board, and the whole game, is returned unchanged with count 0. The scan is
  defined for any number of full rows; \<^verbatim>\<open>clearLines\<close> as a whole returns this board and
  count whenever the count is within \<^verbatim>\<open>scoreTable\<close>, that is at most 4.
\<close>

theorem clearLines_rows:
  assumes "wf_board (board g)"
  shows "clearLoop (board g) (BOARD_H - 1) 0 =
           Some (replicate (fullRowCount (board g)) emptyRow
                   @ filter (\<lambda>row. \<not> rowFull row) (board g),
                 int (fullRowCount (board g)))
       \<and> wf_board (replicate (fullRowCount (board g)) emptyRow
                   @ filter (\<lambda>row. \<not> rowFull row) (board g))
       \<and> filledCount (replicate (fullRowCount (board g)) emptyRow
                   @ filter (\<lambda>row. \<not> rowFull row) (board g))
           + fullRowCount (board g) * nat BOARD_W = filledCount (board g)
       \<and> (fullRowCount (board g) = 0 \<longrightarrow>
            clearLoop (board g) (BOARD_H - 1) 0 = Some (board g, 0)
            \<and> clearLines g = Some (g, 0))
       \<and> (fullRowCount (board g) \<le> 4 \<longrightarrow>
            (\<exists>g'. clearLines g = Some (g', int (fullRowCount (board g)))
               \<and> board g' = replicate (fullRowCount (board g)) emptyRow
                   @ filter (\<lambda>row. \<not> rowFull row) (board g)))"
proof -
  let ?n = "fullRowCount (board g)"
  let ?b' = "replicate ?n emptyRow @ filter (\<lambda>row. \<not> rowFull row) (board g)"
  have 1: "clearLoop (board g) (BOARD_H - 1) 0 = Some (?b', int ?n)"
    using assms by (rule clearLoop_full)
  have 2: "wf_board ?b'"
    using assms by (rule compact_wf)
  from assms have rows: "list_all (\<lambda>row. length row = 10) (board g)"
    by (simp add: wf_board_def BOARD_W_def)
  have "filledCount (board g)
        = filledCount (filter rowFull (board g)) + filledCount (filter (\<lambda>row. \<not> rowFull row) (board g))"
    by (rule filledCount_split)
  also have "filledCount (filter rowFull (board g)) = ?n * 10"
    using rows by (simp add: filledCount_full fullRowCount_def)
  finally have 3: "filledCount ?b' + ?n * nat BOARD_W = filledCount (board g)"
    by (simp add: filledCount_append filledCount_empty BOARD_W_def)
  have same: "?b' = board g" if "?n = 0"
  proof -
    from that have "filter rowFull (board g) = []" by (simp add: fullRowCount_def)
    then have "filter (\<lambda>row. \<not> rowFull row) (board g) = board g"
      by (simp add: filter_empty_conv filter_id_conv)
    with that show ?thesis by simp
  qed
  have 4: "clearLoop (board g) (BOARD_H - 1) 0 = Some (board g, 0) \<and> clearLines g = Some (g, 0)"
    if "?n = 0"
    using that same [OF that] 1 clearLines_eval [OF assms] by simp
  have 5: "\<exists>g'. clearLines g = Some (g', int ?n) \<and> board g' = ?b'" if "?n \<le> 4"
    using clearLines_eval [OF assms that] by (cases "?n = 0") simp_all
  from 1 2 3 4 5 show ?thesis by blast
qed


lemma upt10: "[0..<10] = [0, 1, 2, 3, 4, 5, 6, 7, 8, 9]"
  by (simp add: upt_rec)

lemma rowFull_literal:
  "rowFull [a0, a1, a2, a3, a4, a5, a6, a7, a8, a9] \<longleftrightarrow>
     a0 \<noteq> 0 \<and> a1 \<noteq> 0 \<and> a2 \<noteq> 0 \<and> a3 \<noteq> 0 \<and> a4 \<noteq> 0 \<and> a5 \<noteq> 0 \<and> a6 \<noteq> 0 \<and> a7 \<noteq> 0
     \<and> a8 \<noteq> 0 \<and> a9 \<noteq> 0"
  by (simp add: rowFull_def BOARD_W_def upt10)

lemma rowFull_replicate: "rowFull (replicate 10 v) \<longleftrightarrow> v \<noteq> 0"
  by (simp add: rowFull_def BOARD_W_def upt10)

theorem clearLines_rows_witness:
  "wf_board (replicate 15 (replicate 10 0) @
      [[3, 0, 0, 0, 0, 0, 0, 0, 0, 0], replicate 10 1, [0, 5, 0, 0, 0, 0, 0, 0, 0, 0],
       replicate 10 2, [0, 0, 7, 0, 0, 0, 0, 0, 0, 0]])
   \<and> clearLoop (replicate 15 (replicate 10 0) @
      [[3, 0, 0, 0, 0, 0, 0, 0, 0, 0], replicate 10 1, [0, 5, 0, 0, 0, 0, 0, 0, 0, 0],
       replicate 10 2, [0, 0, 7, 0, 0, 0, 0, 0, 0, 0]]) (BOARD_H - 1) 0
     = Some (replicate 17 (replicate 10 0) @
      [[3, 0, 0, 0, 0, 0, 0, 0, 0, 0], [0, 5, 0, 0, 0, 0, 0, 0, 0, 0],
       [0, 0, 7, 0, 0, 0, 0, 0, 0, 0]], 2)
   \<and> filledCount (replicate 15 (replicate 10 0) @
      [[3, 0, 0, 0, 0, 0, 0, 0, 0, 0], replicate 10 1, [0, 5, 0, 0, 0, 0, 0, 0, 0, 0],
       replicate 10 2, [0, 0, 7, 0, 0, 0, 0, 0, 0, 0]]) = 23
   \<and> filledCount (replicate 17 (replicate 10 0) @
      [[3, 0, 0, 0, 0, 0, 0, 0, 0, 0], [0, 5, 0, 0, 0, 0, 0, 0, 0, 0],
       [0, 0, 7, 0, 0, 0, 0, 0, 0, 0]]) = 3
   \<and> clearLines ((initGame 3 5)\<lparr>board := replicate 20 (replicate 10 0)\<rparr>)
       = Some ((initGame 3 5)\<lparr>board := replicate 20 (replicate 10 0)\<rparr>, 0)"
proof -
  let ?b = "replicate 15 (replicate 10 0) @
      [[3, 0, 0, 0, 0, 0, 0, 0, 0, 0], replicate 10 1, [0, 5, 0, 0, 0, 0, 0, 0, 0, 0],
       replicate 10 2, [0, 0, 7, 0, 0, 0, 0, 0, 0, 0::int]]"
  have wf: "wf_board ?b"
    by (simp add: wf_board_def BOARD_H_def BOARD_W_def list_all_iff)
  have n: "fullRowCount ?b = 2"
    by (simp add: fullRowCount_def rowFull_literal rowFull_replicate)
  have wf0: "wf_board (replicate 20 (replicate 10 0))"
    by (simp add: wf_board_def BOARD_H_def BOARD_W_def list_all_iff)
  have n0: "fullRowCount (replicate 20 (replicate 10 0)) = 0"
    by (simp add: fullRowCount_def rowFull_replicate)
  have r17: "replicate 17 (replicate 10 (0::int)) = replicate 2 (replicate 10 0) @ replicate 15 (replicate 10 0)"
    by (simp add: replicate_add [symmetric])
  show ?thesis
    using clearLines_rows [of "(initGame 3 5)\<lparr>board := ?b\<rparr>"]
          clearLines_rows [of "(initGame 3 5)\<lparr>board := replicate 20 (replicate 10 0)\<rparr>"]
    by (simp add: wf n wf0 n0 r17 emptyRow_def BOARD_W_def rowFull_literal rowFull_replicate filledCount_def)
qed

subsection \<open>At most four rows per lock\<close>

lemma row_unchanged:
  assumes "wf_board b" and "i < 20" and "int i < y \<or> y + 3 < int i"
  shows "placeCells b cs x y v frameCells ! i = b ! i"
proof (rule nth_equalityI)
  from assms(1) have "wf_board (placeCells b cs x y v frameCells)" by (rule placeCells_wf)
  with assms(1,2) show "length (placeCells b cs x y v frameCells ! i) = length (b ! i)"
    by (simp add: wf_board_iff)
next
  fix j assume "j < length (placeCells b cs x y v frameCells ! i)"
  moreover from assms(1) have "wf_board (placeCells b cs x y v frameCells)" by (rule placeCells_wf)
  ultimately have j: "j < 10" using assms(2) by (simp add: wf_board_iff)
  have "\<not> (\<exists>(r, c) \<in> set frameCells. getCell cs r c \<noteq> 0 \<and> y + int r = int i \<and> x + int c = int j)"
    using assms(3) by (auto simp: frameCells_set)
  then show "placeCells b cs x y v frameCells ! i ! j = b ! i ! j"
    unfolding placeCells_nth [OF assms(1,2) j] by simp
qed

lemma span_card: "card {i::nat. y \<le> int i \<and> int i \<le> y + 3} \<le> 4"
proof -
  have "{i::nat. y \<le> int i \<and> int i \<le> y + 3} \<subseteq> nat ` {y..y + 3}"
  proof
    fix i assume "i \<in> {i::nat. y \<le> int i \<and> int i \<le> y + 3}"
    then have "int i \<in> {y..y + 3}" by simp
    then have "nat (int i) \<in> nat ` {y..y + 3}" by (rule imageI)
    then show "i \<in> nat ` {y..y + 3}" by simp
  qed
  then have "card {i::nat. y \<le> int i \<and> int i \<le> y + 3} \<le> card (nat ` {y..y + 3})"
    by (intro card_mono) simp_all
  also have "\<dots> \<le> card {y..y + 3}" by (rule card_image_le) simp
  also have "\<dots> = 4" by simp
  finally show ?thesis .
qed

lemma placeCells_fullRowCount:
  assumes "wf_board b" and "fullRowCount b = 0"
  shows "fullRowCount (placeCells b cs x y v frameCells) \<le> 4"
proof -
  let ?b' = "placeCells b cs x y v frameCells"
  from assms(1) have wf': "wf_board ?b'" by (rule placeCells_wf)
  from assms(2) have none: "\<not> rowFull (b ! i)" if "i < 20" for i
    using that assms(1) by (auto simp: fullRowCount_def filter_empty_conv wf_board_iff)
  have "{i. i < length ?b' \<and> rowFull (?b' ! i)} \<subseteq> {i::nat. y \<le> int i \<and> int i \<le> y + 3}"
  proof
    fix i assume "i \<in> {i. i < length ?b' \<and> rowFull (?b' ! i)}"
    then have i: "i < 20" and full: "rowFull (?b' ! i)"
      using wf' by (simp_all add: wf_board_iff)
    show "i \<in> {i::nat. y \<le> int i \<and> int i \<le> y + 3}"
    proof (rule ccontr)
      assume "i \<notin> {i::nat. y \<le> int i \<and> int i \<le> y + 3}"
      then have "int i < y \<or> y + 3 < int i" by auto
      with assms(1) i have "?b' ! i = b ! i" by (rule row_unchanged)
      with full none [OF i] show False by simp
    qed
  qed
  moreover have "finite {i::nat. y \<le> int i \<and> int i \<le> y + 3}"
  proof (rule finite_subset)
    show "{i::nat. y \<le> int i \<and> int i \<le> y + 3} \<subseteq> {..nat (y + 3)}" by auto
  qed simp
  ultimately have "card {i. i < length ?b' \<and> rowFull (?b' ! i)}
      \<le> card {i::nat. y \<le> int i \<and> int i \<le> y + 3}"
    by (intro card_mono)
  also have "\<dots> \<le> 4" by (rule span_card)
  finally show ?thesis by (simp add: fullRowCount_def length_filter_conv_card)
qed

text \<open>
  C9. On a board of \<open>BOARD_H\<close> rows and \<open>BOARD_W\<close> columns without a full row, locking a
  piece and then calling \<^verbatim>\<open>clearLines\<close> returns, and the returned count is the number
  of full rows of the locked board and lies between 0 and 4: a piece reaches only the four
  rows of its frame.
\<close>

theorem lock_clears_at_most_four:
  assumes "wf_board (board g)" and "fullRowCount (board g) = 0"
  shows "\<exists>g' n. clearLines (placePiece g) = Some (g', n) \<and> 0 \<le> n \<and> n \<le> 4
           \<and> n = int (fullRowCount (board (placePiece g)))"
proof -
  let ?cs = "cells (rotatePiece (pieces ! nat (curPieceId g)) (curRot g))"
  have b: "board (placePiece g) = placeCells (board g) ?cs (curX g) (curY g) (curPieceId g + 1) frameCells"
    by (simp add: placePiece_def Let_def)
  have wf': "wf_board (board (placePiece g))"
    unfolding b using assms(1) by (rule placeCells_wf)
  have le: "fullRowCount (board (placePiece g)) \<le> 4"
    unfolding b using assms by (rule placeCells_fullRowCount)
  from clearLines_eval [OF wf' le] le show ?thesis by simp
qed


theorem lock_clears_at_most_four_witness:
  "wf_board (replicate 19 (replicate 10 0) @ [[1, 1, 1, 1, 1, 1, 0, 0, 0, 0]])
   \<and> fullRowCount (replicate 19 (replicate 10 0) @ [[1, 1, 1, 1, 1, 1, 0, 0, 0, 0]]) = 0
   \<and> board (placePiece \<lparr>board = replicate 19 (replicate 10 0) @ [[1, 1, 1, 1, 1, 1, 0, 0, 0, 0]],
       curPieceId = 0, curRot = 0, curX = 6, curY = 18, nextPieceId = 5, gameOver = False,
       score = 0, level = 1, linesCleared = 0\<rparr>)
     = replicate 19 (replicate 10 0) @ [[1, 1, 1, 1, 1, 1, 1, 1, 1, 1]]
   \<and> clearLines (placePiece \<lparr>board = replicate 19 (replicate 10 0) @ [[1, 1, 1, 1, 1, 1, 0, 0, 0, 0]],
       curPieceId = 0, curRot = 0, curX = 6, curY = 18, nextPieceId = 5, gameOver = False,
       score = 0, level = 1, linesCleared = 0\<rparr>)
     = Some (\<lparr>board = replicate 20 (replicate 10 0),
       curPieceId = 0, curRot = 0, curX = 6, curY = 18, nextPieceId = 5, gameOver = False,
       score = 40, level = 1, linesCleared = 1\<rparr>, 1)"
proof -
  let ?b = "replicate 19 (replicate 10 0) @ [[1, 1, 1, 1, 1, 1, 0, 0, 0, 0::int]]"
  let ?g = "\<lparr>board = ?b,
       curPieceId = 0, curRot = 0, curX = 6, curY = 18, nextPieceId = 5, gameOver = False,
       score = 0, level = 1, linesCleared = 0\<rparr>"
  let ?b' = "replicate 19 (replicate 10 0) @ [[1, 1, 1, 1, 1, 1, 1, 1, 1, 1::int]]"
  have wf: "wf_board ?b"
    by (simp add: wf_board_def BOARD_H_def BOARD_W_def list_all_iff)
  have n: "fullRowCount ?b = 0"
    by (simp add: fullRowCount_def rowFull_literal rowFull_replicate)
  have cs: "cells (rotatePiece (pieces ! 0) 0)
       = Array4 (Array4 0 0 0 0) (Array4 1 1 1 1) (Array4 0 0 0 0) (Array4 0 0 0 0)"
    by (simp add: pieces_eq rotatePiece_loop)
  have pb: "board (placePiece ?g) = ?b'"
    by (simp add: placePiece_def Let_def cs frameCells_eq getCell_def BOARD_H_def BOARD_W_def
        list_update_append nth_append)
  have wf': "wf_board ?b'"
    by (simp add: wf_board_def BOARD_H_def BOARD_W_def list_all_iff)
  have n': "fullRowCount ?b' = 1"
    by (simp add: fullRowCount_def rowFull_literal rowFull_replicate)
  have r20: "replicate 20 (replicate 10 (0::int)) = replicate 10 0 # replicate 19 (replicate 10 0)"
    by (simp add: eval_nat_numeral)
  have pg: "placePiece ?g = ?g\<lparr>board := ?b'\<rparr>"
    using pb by (simp add: placePiece_def Let_def)
  have ev: "clearLines (placePiece ?g) = Some (\<lparr>board = replicate 20 (replicate 10 0),
       curPieceId = 0, curRot = 0, curX = 6, curY = 18, nextPieceId = 5, gameOver = False,
       score = 40, level = 1, linesCleared = 1\<rparr>, 1)"
    unfolding pg using clearLines_eval [of "?g\<lparr>board := ?b'\<rparr>"]
    by (simp add: wf' n' r20 emptyRow_def BOARD_W_def rowFull_literal rowFull_replicate
        scoreTable_def c_div_def wrap32_def)
  from lock_clears_at_most_four [of ?g] wf n pb ev show ?thesis by simp
qed

subsection \<open>Spawning\<close>


lemma collides_board: "board g = board g' \<Longrightarrow> collides g k rot x y = collides g' k rot x y"
  by (simp add: collides_def)

lemma half_width: "c_div BOARD_W 2 - 2 = 3"
  by (simp add: c_div_def BOARD_W_def)

text \<open>
  At the spawn position every set cell of a catalogue piece in orientation 0 lies in frame
  row 0 or 1, hence at board row \<open>-2\<close> or \<open>-1\<close>, and in columns 3 to 6: the collision test
  at the spawn position is false for every board.
\<close>

lemma spawn_never_collides:
  assumes "0 \<le> k" and "k < 7"
  shows "\<not> collides g k 0 3 (- 2)"
  using lt7_cases [OF assms]
  by (elim disjE; simp add: collides_def rotatePiece_loop pieces_eq frameCells_eq getCell_def
      BOARD_W_def BOARD_H_def)

text \<open>
  C4. Every spawn sets the orientation to 0, the anchor to \<open>x = BOARD_W/2 - 2 = 3\<close> and
  \<open>y = -2\<close>, takes the current kind from the next kind selected before, and draws a new
  next kind. The game-over flag afterwards is true exactly when it was true before or the
  collision test at the spawn position answers true. Board, score, level and total of
  lines are unchanged.
\<close>

theorem spawnPiece_fields:
  "curRot (spawnPiece g rnd) = 0
   \<and> curX (spawnPiece g rnd) = c_div BOARD_W 2 - 2
   \<and> c_div BOARD_W 2 - 2 = 3
   \<and> curY (spawnPiece g rnd) = - 2
   \<and> curPieceId (spawnPiece g rnd) = nextPieceId g
   \<and> nextPieceId (spawnPiece g rnd) = int (rnd mod 7)
   \<and> gameOver (spawnPiece g rnd) =
       (gameOver g \<or> collides (spawnPiece g rnd) (curPieceId (spawnPiece g rnd))
           (curRot (spawnPiece g rnd)) (curX (spawnPiece g rnd)) (curY (spawnPiece g rnd)))
   \<and> board (spawnPiece g rnd) = board g
   \<and> score (spawnPiece g rnd) = score g
   \<and> level (spawnPiece g rnd) = level g
   \<and> linesCleared (spawnPiece g rnd) = linesCleared g"
proof -
  let ?g1 = "g\<lparr>curPieceId := nextPieceId g, nextPieceId := int (rnd mod length pieces),
                curRot := 0, curX := c_div BOARD_W 2 - 2, curY := - 2\<rparr>"
  have sp: "spawnPiece g rnd =
      (if collides ?g1 (nextPieceId g) 0 (c_div BOARD_W 2 - 2) (- 2)
       then ?g1\<lparr>gameOver := True\<rparr> else ?g1)"
    by (simp add: spawnPiece_def Let_def)
  have cb: "collides (spawnPiece g rnd) k rot x y = collides ?g1 k rot x y" for k rot x y
    by (rule collides_board) (simp add: sp)
  show ?thesis
    unfolding cb by (simp add: sp pieces_length half_width)
qed

theorem spawnPiece_fields_witness:
  "spawnPiece \<lparr>board = replicate 19 (replicate 10 0) @ [[0, 5, 0, 0, 0, 0, 0, 0, 0, 0]],
       curPieceId = 0, curRot = 2, curX = 6, curY = 18, nextPieceId = 5, gameOver = False,
       score = 40, level = 1, linesCleared = 1\<rparr> 23
   = \<lparr>board = replicate 19 (replicate 10 0) @ [[0, 5, 0, 0, 0, 0, 0, 0, 0, 0]],
       curPieceId = 5, curRot = 0, curX = 3, curY = - 2, nextPieceId = 2, gameOver = False,
       score = 40, level = 1, linesCleared = 1\<rparr>"
proof -
  let ?g = "\<lparr>board = replicate 19 (replicate 10 0) @ [[0, 5, 0, 0, 0, 0, 0, 0, 0, 0]],
       curPieceId = 0, curRot = 2, curX = 6, curY = 18, nextPieceId = 5, gameOver = False,
       score = 40, level = 1, linesCleared = 1\<rparr>"
  have nc: "\<not> collides g' 5 0 3 (- 2)" for g'
    by (rule spawn_never_collides) simp_all
  have "Game.more (spawnPiece ?g 23) = ()" by simp
  with spawnPiece_fields [of ?g 23] show ?thesis
    by (intro Game.equality) (simp_all add: nc)
qed

subsection \<open>Moves and rotation\<close>

text \<open>
  C6. A move-left, move-right or rotate-clockwise request is a key \<open>a\<close>/\<open>A\<close>, \<open>d\<close>/\<open>D\<close> or
  \<open>w\<close>/\<open>W\<close> handled while the game is not paused. If the collision test accepts the
  candidate position or orientation, the game afterwards is the game before with exactly
  that field replaced; otherwise it is the game before, with no field changed. The pause
  flag is kept and the input loop goes on. The candidate orientation
  \<^verbatim>\<open>(g.curRot+1)%4\<close> is the successor modulo 4 of an orientation that is not negative.
\<close>

theorem move_rotate_commit_or_reject:
  assumes "chL = of_char CHR ''a'' \<or> chL = of_char CHR ''A''"
    and "chR = of_char CHR ''d'' \<or> chR = of_char CHR ''D''"
    and "chW = of_char CHR ''w'' \<or> chW = of_char CHR ''W''"
  shows "handleKey chL rnd (g, False) =
           Some (if collides g (curPieceId g) (curRot g) (curX g - 1) (curY g)
                 then g else g\<lparr>curX := curX g - 1\<rparr>, False, False)
       \<and> handleKey chR rnd (g, False) =
           Some (if collides g (curPieceId g) (curRot g) (curX g + 1) (curY g)
                 then g else g\<lparr>curX := curX g + 1\<rparr>, False, False)
       \<and> handleKey chW rnd (g, False) =
           Some (if collides g (curPieceId g) (c_mod (curRot g + 1) 4) (curX g) (curY g)
                 then g else g\<lparr>curRot := c_mod (curRot g + 1) 4\<rparr>, False, False)
       \<and> (0 \<le> curRot g \<longrightarrow> c_mod (curRot g + 1) 4 = (curRot g + 1) mod 4)"
proof -
  have l: "handleKey chL rnd (g, False) =
           Some (if collides g (curPieceId g) (curRot g) (curX g - 1) (curY g)
                 then g else g\<lparr>curX := curX g - 1\<rparr>, False, False)"
    using assms(1) by (auto simp: handleKey_def moveLeft_def Let_def)
  have r: "handleKey chR rnd (g, False) =
           Some (if collides g (curPieceId g) (curRot g) (curX g + 1) (curY g)
                 then g else g\<lparr>curX := curX g + 1\<rparr>, False, False)"
    using assms(2) by (auto simp: handleKey_def moveRight_def Let_def)
  have w: "handleKey chW rnd (g, False) =
           Some (if collides g (curPieceId g) (c_mod (curRot g + 1) 4) (curX g) (curY g)
                 then g else g\<lparr>curRot := c_mod (curRot g + 1) 4\<rparr>, False, False)"
    using assms(3) by (auto simp: handleKey_def rotateCW_def Let_def)
  have m: "0 \<le> curRot g \<longrightarrow> c_mod (curRot g + 1) 4 = (curRot g + 1) mod 4"
    by (simp add: c_mod_nonneg)
  from l r w m show ?thesis by blast
qed

text \<open>The O piece in every orientation.\<close>

lemma O_cells: "cells (rotatePiece (pieces ! 3) t) =
    (if t mod 4 = 0 then Array4 (Array4 1 1 0 0) (Array4 1 1 0 0) (Array4 0 0 0 0) (Array4 0 0 0 0)
     else if t mod 4 = 1 then Array4 (Array4 0 0 1 1) (Array4 0 0 1 1) (Array4 0 0 0 0) (Array4 0 0 0 0)
     else if t mod 4 = 2 then Array4 (Array4 0 0 0 0) (Array4 0 0 0 0) (Array4 0 0 1 1) (Array4 0 0 1 1)
     else Array4 (Array4 0 0 0 0) (Array4 0 0 0 0) (Array4 1 1 0 0) (Array4 1 1 0 0))"
proof -
  have "nat (t mod 4) < 4" by simp
  from lt4_cases [OF this] have "t mod 4 = 0 \<or> t mod 4 = 1 \<or> t mod 4 = 2 \<or> t mod 4 = 3"
    by auto
  then show ?thesis
    by (elim disjE; simp add: rotatePiece_loop pieces_eq eval_nat_numeral rotateOnce_eq getCell_def)
qed

theorem move_rotate_commit_or_reject_witness:
  "handleKey (of_char CHR ''a'') 0 ((initGame 3 5)\<lparr>curX := 0, curY := 5, curRot := 3\<rparr>, False)
     = Some ((initGame 3 5)\<lparr>curX := 0, curY := 5, curRot := 3\<rparr>, False, False)
   \<and> handleKey (of_char CHR ''D'') 0 ((initGame 3 5)\<lparr>curX := 0, curY := 5, curRot := 3\<rparr>, False)
     = Some ((initGame 3 5)\<lparr>curX := 1, curY := 5, curRot := 3\<rparr>, False, False)
   \<and> handleKey (of_char CHR ''w'') 0 ((initGame 3 5)\<lparr>curX := 0, curY := 5, curRot := 3\<rparr>, False)
     = Some ((initGame 3 5)\<lparr>curX := 0, curY := 5, curRot := 0\<rparr>, False, False)
   \<and> handleKey (of_char CHR ''W'') 0 ((initGame 3 5)\<lparr>curX := 7, curY := 5, curRot := 0\<rparr>, False)
     = Some ((initGame 3 5)\<lparr>curX := 7, curY := 5, curRot := 0\<rparr>, False, False)"
proof -
  have cm: "c_mod 4 4 = 0" "c_mod 1 4 = 1" "c_mod 2 4 = 2"
    by (simp_all add: c_mod_def c_div_def)
  show ?thesis
    using move_rotate_commit_or_reject
            [of "of_char CHR ''a''" "of_char CHR ''D''" "of_char CHR ''w''" 0
                "(initGame 3 5)\<lparr>curX := 0, curY := 5, curRot := 3\<rparr>"]
          move_rotate_commit_or_reject
            [of "of_char CHR ''a''" "of_char CHR ''D''" "of_char CHR ''W''" 0
                "(initGame 3 5)\<lparr>curX := 7, curY := 5, curRot := 0\<rparr>"]
    by (simp add: initGame_3_5 cm collides_def O_cells frameCells_eq getCell_def BOARD_W_def
        BOARD_H_def)
qed

subsection \<open>Game over\<close>

lemma moveLeft_gameOver: "gameOver (moveLeft g) = gameOver g"
  by (simp add: moveLeft_def)

lemma moveRight_gameOver: "gameOver (moveRight g) = gameOver g"
  by (simp add: moveRight_def)

lemma rotateCW_gameOver: "gameOver (rotateCW g) = gameOver g"
  by (simp add: rotateCW_def Let_def)

lemma placePiece_gameOver: "gameOver (placePiece g) = gameOver g"
  by (simp add: placePiece_def Let_def)

lemma clearLines_gameOver: "clearLines g = Some (g', n) \<Longrightarrow> gameOver g' = gameOver g"
  by (auto simp: clearLines_def Let_def split: option.splits prod.splits if_splits)

lemma spawnPiece_gameOver: "gameOver g \<Longrightarrow> gameOver (spawnPiece g rnd)"
  by (simp add: spawnPiece_def Let_def)

lemma lockAndSpawn_gameOver:
  assumes "lockAndSpawn g rnd = Some g'" and "gameOver g"
  shows "gameOver g'"
proof -
  from assms(1) obtain g1 n where cl: "clearLines (placePiece g) = Some (g1, n)"
    and g': "g' = spawnPiece g1 rnd"
    by (auto simp: lockAndSpawn_def split: option.splits prod.splits)
  from cl have "gameOver g1 = gameOver (placePiece g)" by (rule clearLines_gameOver)
  with assms(2) have "gameOver g1" by (simp add: placePiece_gameOver)
  then show ?thesis unfolding g' by (rule spawnPiece_gameOver)
qed

lemma softDrop_gameOver:
  "softDrop g rnd = Some g' \<Longrightarrow> gameOver g \<Longrightarrow> gameOver g'"
  by (auto simp: softDrop_def lockAndSpawn_gameOver split: if_splits)

lemma gravityStep_gameOver:
  "gravityStep g rnd = Some g' \<Longrightarrow> gameOver g \<Longrightarrow> gameOver g'"
  by (auto simp: gravityStep_def lockAndSpawn_gameOver split: if_splits)

lemma dropLoop_curY:
  assumes "dropLoop g = Some g'"
  shows "g' = g\<lparr>curY := curY g'\<rparr> \<and> curY g \<le> curY g'"
proof (rule dropLoop.raw_induct [OF _ assms])
  fix f :: "Game \<Rightarrow> Game option" and g y
  assume IH: "\<And>g y. f g = Some y \<Longrightarrow> y = g\<lparr>curY := curY y\<rparr> \<and> curY g \<le> curY y"
  assume step: "(if \<not> collides g (curPieceId g) (curRot g) (curX g) (curY g + 1)
                 then f (g\<lparr>curY := curY g + 1\<rparr>) else Some g) = Some y"
  show "y = g\<lparr>curY := curY y\<rparr> \<and> curY g \<le> curY y"
  proof (cases "collides g (curPieceId g) (curRot g) (curX g) (curY g + 1)")
    case True
    with step show ?thesis by simp
  next
    case False
    with step have "f (g\<lparr>curY := curY g + 1\<rparr>) = Some y" by simp
    then have "y = g\<lparr>curY := curY g + 1\<rparr>\<lparr>curY := curY y\<rparr> \<and> curY (g\<lparr>curY := curY g + 1\<rparr>) \<le> curY y"
      by (rule IH)
    then show ?thesis by simp
  qed
qed

lemma dropLoop_gameOver: "dropLoop g = Some g' \<Longrightarrow> gameOver g' = gameOver g"
proof -
  assume "dropLoop g = Some g'"
  then have "g' = g\<lparr>curY := curY g'\<rparr>" by (simp add: dropLoop_curY)
  then have "gameOver g' = gameOver (g\<lparr>curY := curY g'\<rparr>)" by simp
  then show ?thesis by simp
qed

lemma hardDrop_gameOver:
  "hardDrop g rnd = Some g' \<Longrightarrow> gameOver g \<Longrightarrow> gameOver g'"
  by (auto simp: hardDrop_def dropLoop_gameOver split: option.splits
      intro: lockAndSpawn_gameOver)

lemma handleKey_gameOver:
  assumes "handleKey ch rnd (g, paused) = Some (g', paused', brk)" and "gameOver g"
  shows "gameOver g'"
  using assms
  by (auto simp: handleKey_def Let_def moveLeft_gameOver moveRight_gameOver rotateCW_gameOver
      split: if_splits dest: softDrop_gameOver hardDrop_gameOver)

lemma inputLoop_gameOver:
  "inputLoop keys (g, paused) = Some (g', paused') \<Longrightarrow> gameOver g \<Longrightarrow> gameOver g'"
proof (induction keys arbitrary: g paused)
  case Nil
  then show ?case by simp
next
  case (Cons k keys)
  obtain ch rnd where k: "k = (ch, rnd)" by (cases k)
  show ?case
  proof (cases "ch = - 1")
    case True
    with Cons.prems k show ?thesis by simp
  next
    case False
    with Cons.prems(1) k obtain g1 p1 brk where hk: "handleKey ch rnd (g, paused) = Some (g1, p1, brk)"
      and rest: "if brk then (g', paused') = (g1, p1) else inputLoop keys (g1, p1) = Some (g', paused')"
      by (auto split: option.splits prod.splits if_splits)
    from hk Cons.prems(2) have g1: "gameOver g1" by (rule handleKey_gameOver)
    show ?thesis
    proof (cases brk)
      case True
      with rest g1 show ?thesis by simp
    next
      case False
      with rest have "inputLoop keys (g1, p1) = Some (g', paused')" by simp
      then show ?thesis using g1 by (rule Cons.IH)
    qed
  qed
qed

text \<open>
  C5, as the program has it. The flag is sticky: a key handled, a drained input queue or a
  gravity step that starts with the flag true ends with the flag true. It is terminal at
  the main loop: a pass that starts with the flag true leaves the loop at once with the
  game as it is, so no move, rotation, drop or gravity step is applied from then on.
\<close>

theorem gameOver_gate:
  assumes "gameOver g"
  shows "mainIteration keys elapsed rnd (g, paused) = Some (Inr g)
       \<and> (handleKey ch rnd (g, paused) = Some (g1, p1, brk) \<longrightarrow> gameOver g1)
       \<and> (inputLoop keys (g, paused) = Some (g2, p2) \<longrightarrow> gameOver g2)
       \<and> (gravityStep g rnd = Some g3 \<longrightarrow> gameOver g3)"
proof -
  have "mainIteration keys elapsed rnd (g, paused) = Some (Inr g)"
    using assms by (simp add: mainIteration_def)
  moreover have "gameOver g1" if "handleKey ch rnd (g, paused) = Some (g1, p1, brk)"
    using that assms by (rule handleKey_gameOver)
  moreover have "gameOver g2" if "inputLoop keys (g, paused) = Some (g2, p2)"
    using that assms by (rule inputLoop_gameOver)
  moreover have "gameOver g3" if "gravityStep g rnd = Some g3"
    using that assms by (rule gravityStep_gameOver)
  ultimately show ?thesis by blast
qed


theorem gameOver_gate_witness:
  "gameOver ((initGame 3 5)\<lparr>gameOver := True\<rparr>)
   \<and> mainIteration [(of_char CHR ''a'', 0), (of_char CHR '' '', 1)] True 0
         ((initGame 3 5)\<lparr>gameOver := True\<rparr>, False)
       = Some (Inr ((initGame 3 5)\<lparr>gameOver := True\<rparr>))
   \<and> handleKey (of_char CHR ''a'') 0 ((initGame 3 5)\<lparr>gameOver := True\<rparr>, False)
       = Some ((initGame 3 5)\<lparr>gameOver := True, curX := 2\<rparr>, False, False)
   \<and> inputLoop [(of_char CHR ''a'', 0)] ((initGame 3 5)\<lparr>gameOver := True\<rparr>, False)
       = Some ((initGame 3 5)\<lparr>gameOver := True, curX := 2\<rparr>, False)
   \<and> gravityStep ((initGame 3 5)\<lparr>gameOver := True\<rparr>) 0
       = Some ((initGame 3 5)\<lparr>gameOver := True, curY := - 1\<rparr>)
   \<and> gameOver ((initGame 3 5)\<lparr>gameOver := True, curX := 2\<rparr>)
   \<and> gameOver ((initGame 3 5)\<lparr>gameOver := True, curY := - 1\<rparr>)"
proof -
  let ?g = "(initGame 3 5)\<lparr>gameOver := True\<rparr>"
  have hk: "handleKey (of_char CHR ''a'') 0 (?g, False)
       = Some ((initGame 3 5)\<lparr>gameOver := True, curX := 2\<rparr>, False, False)"
    by (simp add: handleKey_def moveLeft_def initGame_3_5 collides_def O_cells frameCells_eq
        getCell_def BOARD_W_def BOARD_H_def)
  have il: "inputLoop [(of_char CHR ''a'', 0)] (?g, False)
       = Some ((initGame 3 5)\<lparr>gameOver := True, curX := 2\<rparr>, False)"
    using hk by simp
  have gs: "gravityStep ?g 0 = Some ((initGame 3 5)\<lparr>gameOver := True, curY := - 1\<rparr>)"
    by (simp add: gravityStep_def initGame_3_5 collides_def O_cells frameCells_eq
        getCell_def BOARD_W_def BOARD_H_def)
  have go: "gameOver ?g" by simp
  from gameOver_gate [OF go, of "[(of_char CHR ''a'', 0), (of_char CHR '' '', 1)]" True 0 False]
       gameOver_gate [OF go, of "[(of_char CHR ''a'', 0)]" True 0 False "of_char CHR ''a''"
          "(initGame 3 5)\<lparr>gameOver := True, curX := 2\<rparr>" False False
          "(initGame 3 5)\<lparr>gameOver := True, curX := 2\<rparr>" False
          "(initGame 3 5)\<lparr>gameOver := True, curY := - 1\<rparr>"]
       hk il gs
  show ?thesis by simp
qed

text \<open>
  C5 as stated fails inside a pass, because the operations themselves do not test the flag.
  The game starts with \<^verbatim>\<open>rand()\<close> returning 3 and 5; the key \<open>q\<close> arrives in a pass in which
  gravity is due. The input loop sets the flag and is left; the gravity step of the same
  pass then moves the active piece from row \<open>-2\<close> to row \<open>-1\<close>. In another state with the flag
  true the gravity step locks the piece, clears a row and raises score and lines.
\<close>

theorem gameOver_terminal_counterexample:
  "inputLoop [(of_char CHR ''q'', 0)] (initGame 3 5, False)
       = Some ((initGame 3 5)\<lparr>gameOver := True\<rparr>, False)
   \<and> gameOver ((initGame 3 5)\<lparr>gameOver := True\<rparr>)
   \<and> curY ((initGame 3 5)\<lparr>gameOver := True\<rparr>) = - 2
   \<and> gravityStep ((initGame 3 5)\<lparr>gameOver := True\<rparr>) 0
       = Some ((initGame 3 5)\<lparr>gameOver := True, curY := - 1\<rparr>)
   \<and> mainIteration [(of_char CHR ''q'', 0)] True 0 (initGame 3 5, False)
       = Some (Inl ((initGame 3 5)\<lparr>gameOver := True, curY := - 1\<rparr>, False))
   \<and> gravityStep
        \<lparr>board = replicate 19 (replicate 10 0) @ [[1, 1, 1, 1, 1, 1, 0, 0, 0, 0]],
         curPieceId = 0, curRot = 0, curX = 6, curY = 18, nextPieceId = 5, gameOver = True,
         score = 0, level = 1, linesCleared = 0\<rparr> 23
       = Some \<lparr>board = replicate 20 (replicate 10 0),
         curPieceId = 5, curRot = 0, curX = 3, curY = - 2, nextPieceId = 2, gameOver = True,
         score = 40, level = 1, linesCleared = 1\<rparr>"
proof -
  let ?g = "(initGame 3 5)\<lparr>gameOver := True\<rparr>"
  have il: "inputLoop [(of_char CHR ''q'', 0)] (initGame 3 5, False) = Some (?g, False)"
    by (simp add: handleKey_def)
  have gs: "gravityStep ?g 0 = Some ((initGame 3 5)\<lparr>gameOver := True, curY := - 1\<rparr>)"
    by (simp add: gravityStep_def initGame_3_5 collides_def O_cells frameCells_eq
        getCell_def BOARD_W_def BOARD_H_def)
  have go: "\<not> gameOver (initGame 3 5)" by (simp add: initGame_3_5)
  have mi: "mainIteration [(of_char CHR ''q'', 0)] True 0 (initGame 3 5, False)
       = Some (Inl ((initGame 3 5)\<lparr>gameOver := True, curY := - 1\<rparr>, False))"
    unfolding mainIteration_def using go il gs by simp
  let ?b = "replicate 19 (replicate 10 0) @ [[1, 1, 1, 1, 1, 1, 0, 0, 0, 0::int]]"
  let ?b' = "replicate 19 (replicate 10 0) @ [[1, 1, 1, 1, 1, 1, 1, 1, 1, 1::int]]"
  let ?h = "\<lparr>board = ?b,
         curPieceId = 0, curRot = 0, curX = 6, curY = 18, nextPieceId = 5, gameOver = True,
         score = 0, level = 1, linesCleared = 0\<rparr>"
  have cs: "cells (rotatePiece (pieces ! 0) 0)
       = Array4 (Array4 0 0 0 0) (Array4 1 1 1 1) (Array4 0 0 0 0) (Array4 0 0 0 0)"
    by (simp add: pieces_eq rotatePiece_loop)
  have col: "collides ?h 0 0 6 19"
    by (simp add: collides_def cs frameCells_eq getCell_def BOARD_W_def BOARD_H_def)
  have pg: "placePiece ?h = ?h\<lparr>board := ?b'\<rparr>"
    by (simp add: placePiece_def Let_def cs frameCells_eq getCell_def BOARD_H_def BOARD_W_def
        list_update_append nth_append)
  have wf': "wf_board ?b'"
    by (simp add: wf_board_def BOARD_H_def BOARD_W_def list_all_iff)
  have n': "fullRowCount ?b' = 1"
    by (simp add: fullRowCount_def rowFull_literal rowFull_replicate)
  have r20: "replicate 20 (replicate 10 (0::int)) = replicate 10 0 # replicate 19 (replicate 10 0)"
    by (simp add: eval_nat_numeral)
  have cl: "clearLines (placePiece ?h) = Some (\<lparr>board = replicate 20 (replicate 10 0),
         curPieceId = 0, curRot = 0, curX = 6, curY = 18, nextPieceId = 5, gameOver = True,
         score = 40, level = 1, linesCleared = 1\<rparr>, 1)"
    unfolding pg using clearLines_eval [of "?h\<lparr>board := ?b'\<rparr>"]
    by (simp add: wf' n' r20 emptyRow_def BOARD_W_def rowFull_literal rowFull_replicate
        scoreTable_def c_div_def wrap32_def)
  have nc: "\<not> collides g' 5 0 3 (- 2)" for g'
    by (rule spawn_never_collides) simp_all
  have sp: "spawnPiece \<lparr>board = replicate 20 (replicate 10 0),
         curPieceId = 0, curRot = 0, curX = 6, curY = 18, nextPieceId = 5, gameOver = True,
         score = 40, level = 1, linesCleared = 1\<rparr> 23
      = \<lparr>board = replicate 20 (replicate 10 0),
         curPieceId = 5, curRot = 0, curX = 3, curY = - 2, nextPieceId = 2, gameOver = True,
         score = 40, level = 1, linesCleared = 1\<rparr>"
    by (simp add: spawnPiece_def Let_def pieces_length half_width nc)
  have lock: "gravityStep ?h 23 = Some \<lparr>board = replicate 20 (replicate 10 0),
         curPieceId = 5, curRot = 0, curX = 3, curY = - 2, nextPieceId = 2, gameOver = True,
         score = 40, level = 1, linesCleared = 1\<rparr>"
    using col by (simp add: gravityStep_def lockAndSpawn_def cl sp)
  have g1: "gameOver ?g" by simp
  have cy: "curY ?g = - 2" by (simp add: initGame_3_5)
  show ?thesis by (intro conjI il g1 cy gs mi lock)
qed

subsection \<open>The hard drop returns\<close>

text \<open>
  Every catalogue piece has a set cell in every orientation, so below the floor the
  collision test is true and the loop of the hard drop ends.
\<close>

lemma piece_has_cell:
  assumes "0 \<le> k" and "k < 7"
  shows "\<exists>(r, c) \<in> set frameCells. getCell (cells (rotatePiece (pieces ! nat k) rot)) r c \<noteq> 0"
proof -
  have "nat (rot mod 4) < 4" by simp
  then have "cellCount (cells (rotateLoop (nat (rot mod 4)) (pieces ! nat k))) = 4"
    using assms by (rule rotateLoop_count)
  then have "filter (\<lambda>(r, c). getCell (cells (rotatePiece (pieces ! nat k) rot)) r c \<noteq> 0) frameCells \<noteq> []"
    by (auto simp: cellCount_def rotatePiece_loop)
  then show ?thesis
    by (auto simp: filter_empty_conv)
qed

lemma collides_below_floor:
  assumes "0 \<le> k" and "k < 7" and "BOARD_H \<le> y"
  shows "collides g k rot x y"
proof -
  from piece_has_cell [OF assms(1,2)] obtain r c where "(r, c) \<in> set frameCells"
    and "getCell (cells (rotatePiece (pieces ! nat k) rot)) r c \<noteq> 0"
    by blast
  moreover from assms(3) have "BOARD_H \<le> y + int r" by simp
  ultimately show ?thesis
    unfolding collides_def Let_def collidesCells_iff by blast
qed

lemma dropLoop_returns:
  assumes "0 \<le> curPieceId g" and "curPieceId g < 7"
  shows "\<exists>g'. dropLoop g = Some g'"
  using assms
proof (induction "nat (BOARD_H - curY g)" arbitrary: g rule: less_induct)
  case less
  show ?case
  proof (cases "collides g (curPieceId g) (curRot g) (curX g) (curY g + 1)")
    case True
    then have "dropLoop g = Some g" by (subst dropLoop.simps) simp
    then show ?thesis by blast
  next
    case False
    have "curY g + 1 < BOARD_H"
    proof (rule ccontr)
      assume "\<not> curY g + 1 < BOARD_H"
      then have "BOARD_H \<le> curY g + 1" by simp
      with less.prems have "collides g (curPieceId g) (curRot g) (curX g) (curY g + 1)"
        by (rule collides_below_floor)
      with False show False by simp
    qed
    then have "nat (BOARD_H - curY (g\<lparr>curY := curY g + 1\<rparr>)) < nat (BOARD_H - curY g)"
      by simp
    moreover have "0 \<le> curPieceId (g\<lparr>curY := curY g + 1\<rparr>)" "curPieceId (g\<lparr>curY := curY g + 1\<rparr>) < 7"
      using less.prems by simp_all
    ultimately obtain g' where "dropLoop (g\<lparr>curY := curY g + 1\<rparr>) = Some g'"
      using less.hyps by blast
    with False have "dropLoop g = Some g'" by (subst dropLoop.simps) simp
    then show ?thesis by blast
  qed
qed

subsection \<open>Every operation of a session returns\<close>

text \<open>
  The results \<open>None\<close> of the model stand for reads outside a vector or outside
  \<^verbatim>\<open>scoreTable\<close> and for a hard drop that does not end. None of them occurs in a session:
  the game that \<^verbatim>\<open>main\<close> starts satisfies \<open>sessionInv\<close>, and every key, every drained
  input queue, every gravity step and every pass of the main loop returns a game that
  satisfies it again.
\<close>

lemma compact_no_full:
  "fullRowCount (replicate n emptyRow @ filter (\<lambda>row. \<not> rowFull row) b) = 0"
proof -
  have "\<not> rowFull emptyRow" using emptyRow_not_full by (simp add: emptyRow_def)
  then show ?thesis
    by (simp add: fullRowCount_def filter_empty_conv)
qed

lemma spawnPiece_eq:
  "spawnPiece g rnd =
     g\<lparr>curPieceId := nextPieceId g, nextPieceId := int (rnd mod 7), curRot := 0, curX := 3,
       curY := - 2, gameOver := gameOver g \<or> collides g (nextPieceId g) 0 3 (- 2)\<rparr>"
proof -
  let ?g1 = "g\<lparr>curPieceId := nextPieceId g, nextPieceId := int (rnd mod 7), curRot := 0,
       curX := 3, curY := - 2\<rparr>"
  have "collides ?g1 (nextPieceId g) 0 3 (- 2) = collides g (nextPieceId g) 0 3 (- 2)"
    by (rule collides_board) simp
  then show ?thesis
    by (simp add: spawnPiece_def Let_def pieces_length half_width)
qed

text \<open>With a catalogue kind as next kind a spawn leaves the game-over flag as it is.\<close>

lemma spawnPiece_keeps_flag:
  assumes "0 \<le> nextPieceId g" and "nextPieceId g < 7"
  shows "gameOver (spawnPiece g rnd) = gameOver g"
  using spawn_never_collides [OF assms] by (simp add: spawnPiece_eq)

lemma spawnPiece_inv:
  assumes "wf_board (board g)" and "fullRowCount (board g) = 0"
    and "0 \<le> nextPieceId g" and "nextPieceId g < 7"
    and "0 \<le> linesCleared g" and "level g = 1 + linesCleared g div 10"
  shows "sessionInv (spawnPiece g rnd)"
proof -
  have "int (rnd mod 7) < 7" by simp
  with assms show ?thesis
    unfolding spawnPiece_eq sessionInv_def by simp
qed

lemma initGame_inv: "sessionInv (initGame rnd0 rnd1)"
proof -
  have wf: "wf_board (replicate (nat BOARD_H) (replicate (nat BOARD_W) 0))"
    by (simp add: wf_board_def list_all_iff)
  have nf: "fullRowCount (replicate (nat BOARD_H) (replicate (nat BOARD_W) 0)) = 0"
    using emptyRow_not_full by (simp add: fullRowCount_def)
  have "int (rnd0 mod 7) < 7" by simp
  then show ?thesis
    unfolding initGame_def by (intro spawnPiece_inv) (simp_all add: wf nf pieces_length)
qed

lemma lockAndSpawn_inv:
  assumes "sessionInv g"
  shows "\<exists>g'. lockAndSpawn g rnd = Some g' \<and> sessionInv g'"
proof -
  let ?cs = "cells (rotatePiece (pieces ! nat (curPieceId g)) (curRot g))"
  let ?p = "placePiece g"
  let ?n = "fullRowCount (board ?p)"
  let ?b' = "replicate ?n emptyRow @ filter (\<lambda>row. \<not> rowFull row) (board ?p)"
  from assms have wf: "wf_board (board g)" and nf: "fullRowCount (board g) = 0"
    and nx: "0 \<le> nextPieceId g" "nextPieceId g < 7"
    and lc: "0 \<le> linesCleared g" and lv: "level g = 1 + linesCleared g div 10"
    by (simp_all add: sessionInv_def)
  have b: "board ?p = placeCells (board g) ?cs (curX g) (curY g) (curPieceId g + 1) frameCells"
    by (simp add: placePiece_def Let_def)
  have other: "nextPieceId ?p = nextPieceId g" "linesCleared ?p = linesCleared g" "level ?p = level g"
    by (simp_all add: placePiece_def Let_def)
  have wf': "wf_board (board ?p)" unfolding b using wf by (rule placeCells_wf)
  have le: "?n \<le> 4" unfolding b using wf nf by (rule placeCells_fullRowCount)
  from clearLines_eval [OF wf' le] obtain g1 where cl: "clearLines ?p = Some (g1, int ?n)"
    and g1: "g1 = (if ?n = 0 then ?p\<lparr>board := ?b'\<rparr>
          else ?p\<lparr>board := ?b', score := score ?p + wrap32 (scoreTable ! ?n * level ?p),
                 linesCleared := linesCleared ?p + int ?n,
                 level := 1 + c_div (linesCleared ?p + int ?n) 10\<rparr>)"
    by simp
  have bw: "wf_board ?b'" using wf' by (rule compact_wf)
  have bn: "fullRowCount ?b' = 0" by (rule compact_no_full)
  have cd: "c_div (linesCleared g + int ?n) 10 = (linesCleared g + int ?n) div 10"
    using lc by (simp add: c_div_nonneg)
  have bg1: "board g1 = ?b'" by (simp add: g1)
  have ng1: "nextPieceId g1 = nextPieceId g" by (simp add: g1 other)
  have lg1: "linesCleared g1 = linesCleared g + int ?n" by (simp add: g1 other)
  have vg1: "level g1 = 1 + linesCleared g1 div 10"
    unfolding lg1 by (simp add: g1 other lv cd)
  have "sessionInv (spawnPiece g1 rnd)"
  proof (rule spawnPiece_inv)
    show "wf_board (board g1)" unfolding bg1 by (rule bw)
    show "fullRowCount (board g1) = 0" unfolding bg1 by (rule bn)
    show "0 \<le> nextPieceId g1" "nextPieceId g1 < 7" using nx by (simp_all add: ng1)
    show "0 \<le> linesCleared g1" using lc by (simp add: lg1)
    show "level g1 = 1 + linesCleared g1 div 10" by (rule vg1)
  qed
  with cl show ?thesis by (simp add: lockAndSpawn_def)
qed

lemma moveLeft_inv: "sessionInv g \<Longrightarrow> sessionInv (moveLeft g)"
  by (simp add: moveLeft_def sessionInv_def)

lemma moveRight_inv: "sessionInv g \<Longrightarrow> sessionInv (moveRight g)"
  by (simp add: moveRight_def sessionInv_def)

lemma rotateCW_inv: "sessionInv g \<Longrightarrow> sessionInv (rotateCW g)"
  by (simp add: rotateCW_def sessionInv_def Let_def)

lemma softDrop_inv:
  assumes "sessionInv g"
  shows "\<exists>g'. softDrop g rnd = Some g' \<and> sessionInv g'"
proof (cases "collides g (curPieceId g) (curRot g) (curX g) (curY g + 1)")
  case True
  with lockAndSpawn_inv [OF assms, of rnd] show ?thesis by (simp add: softDrop_def)
next
  case False
  with assms show ?thesis by (simp add: softDrop_def sessionInv_def)
qed

lemma gravityStep_inv:
  assumes "sessionInv g"
  shows "\<exists>g'. gravityStep g rnd = Some g' \<and> sessionInv g'"
proof (cases "collides g (curPieceId g) (curRot g) (curX g) (curY g + 1)")
  case True
  with lockAndSpawn_inv [OF assms, of rnd] show ?thesis by (simp add: gravityStep_def)
next
  case False
  with assms show ?thesis by (simp add: gravityStep_def sessionInv_def)
qed

lemma hardDrop_inv:
  assumes "sessionInv g"
  shows "\<exists>g'. hardDrop g rnd = Some g' \<and> sessionInv g'"
proof -
  from assms have "0 \<le> curPieceId g" and "curPieceId g < 7" by (simp_all add: sessionInv_def)
  then obtain g1 where d: "dropLoop g = Some g1" using dropLoop_returns by blast
  then have "g1 = g\<lparr>curY := curY g1\<rparr>" by (simp add: dropLoop_curY)
  then have "sessionInv g1 = sessionInv (g\<lparr>curY := curY g1\<rparr>)" by simp
  with assms have "sessionInv g1" by (simp add: sessionInv_def)
  from lockAndSpawn_inv [OF this, of rnd] d show ?thesis by (simp add: hardDrop_def)
qed

lemma handleKey_inv:
  assumes "sessionInv g"
  shows "\<exists>g' paused' brk. handleKey ch rnd (g, paused) = Some (g', paused', brk) \<and> sessionInv g'"
proof -
  have q: "sessionInv (g\<lparr>gameOver := True\<rparr>)" using assms by (simp add: sessionInv_def)
  from softDrop_inv [OF assms, of rnd] obtain gs where gs: "softDrop g rnd = Some gs" "sessionInv gs"
    by blast
  from hardDrop_inv [OF assms, of rnd] obtain gh where gh: "hardDrop g rnd = Some gh" "sessionInv gh"
    by blast
  show ?thesis
    using assms q gs gh
    by (auto simp: handleKey_def Let_def moveLeft_inv moveRight_inv rotateCW_inv)
qed

lemma inputLoop_inv:
  "sessionInv g \<Longrightarrow> \<exists>g' paused'. inputLoop keys (g, paused) = Some (g', paused') \<and> sessionInv g'"
proof (induction keys arbitrary: g paused)
  case Nil
  then show ?case by simp
next
  case (Cons k keys)
  obtain ch rnd where k: "k = (ch, rnd)" by (cases k)
  from handleKey_inv [OF Cons.prems, of ch rnd paused] obtain g1 p1 brk
    where hk: "handleKey ch rnd (g, paused) = Some (g1, p1, brk)" and g1: "sessionInv g1"
    by blast
  from Cons.IH [OF g1, of p1] obtain g2 p2
    where il: "inputLoop keys (g1, p1) = Some (g2, p2)" and g2: "sessionInv g2"
    by blast
  show ?case using Cons.prems hk g1 il g2 by (auto simp: k)
qed

lemma mainIteration_inv:
  assumes "sessionInv g"
  shows "(\<exists>g' paused'. mainIteration keys elapsed rnd (g, paused) = Some (Inl (g', paused'))
            \<and> sessionInv g')
       \<or> mainIteration keys elapsed rnd (g, paused) = Some (Inr g)"
proof -
  from inputLoop_inv [OF assms, of keys paused] obtain g1 p1
    where il: "inputLoop keys (g, paused) = Some (g1, p1)" and g1: "sessionInv g1"
    by blast
  from gravityStep_inv [OF g1, of rnd] obtain g2
    where gs: "gravityStep g1 rnd = Some g2" and g2: "sessionInv g2"
    by blast
  show ?thesis using il g1 gs g2 by (auto simp: mainIteration_def)
qed

subsection \<open>Score, lines and level\<close>

lemma wrap32_id: "- (2 ^ 31) \<le> x \<Longrightarrow> x < 2 ^ 31 \<Longrightarrow> wrap32 x = x"
  by (simp add: wrap32_def)

text \<open>
  What \<^verbatim>\<open>clearLines\<close> does to score, lines and level whenever it returns, after removing
  \<open>n\<close> rows at level \<open>level g\<close>: \<open>n\<close> is between 0 and 4, the score grows by the 32-bit
  value of the entry \<open>n\<close> of \<open>{0, 40, 100, 300, 1200}\<close> times the level before the clear,
  which is that product itself as long as it fits 32 bits, and the total of lines grows by
  \<open>n\<close>. For \<open>n > 0\<close> the level becomes 1 plus the new total divided by 10 in C++ integer
  division; for \<open>n = 0\<close> score, total and level are unchanged. The relation between level
  and total that holds when a session starts is kept.
\<close>

lemma clearLines_fields:
  assumes "clearLines g = Some (g', n)"
  shows "0 \<le> n \<and> n \<le> 4
       \<and> score g' = score g + wrap32 ([0, 40, 100, 300, 1200] ! nat n * level g)
       \<and> (- (2 ^ 31) \<le> [0, 40, 100, 300, 1200] ! nat n * level g
            \<and> [0, 40, 100, 300, 1200] ! nat n * level g < 2 ^ 31
            \<longrightarrow> score g' = score g + [0, 40, 100, 300, 1200] ! nat n * level g)
       \<and> linesCleared g' = linesCleared g + n
       \<and> (0 < n \<longrightarrow> level g' = 1 + c_div (linesCleared g') 10)
       \<and> (n = 0 \<longrightarrow> score g' = score g \<and> linesCleared g' = linesCleared g \<and> level g' = level g)
       \<and> (0 \<le> linesCleared g \<and> level g = 1 + linesCleared g div 10
            \<longrightarrow> level g' = 1 + linesCleared g' div 10)"
proof -
  from assms obtain b where loop: "clearLoop (board g) (BOARD_H - 1) 0 = Some (b, n)"
    and res: "if 0 < n
       then nat n < length scoreTable \<and>
            g' = g\<lparr>board := b, score := score g + wrap32 (scoreTable ! nat n * level g),
                   linesCleared := linesCleared g + n,
                   level := 1 + c_div (linesCleared g + n) 10\<rparr>
       else g' = g\<lparr>board := b\<rparr>"
    by (auto simp: clearLines_def Let_def split: option.splits prod.splits if_splits)
  from loop have n0: "0 \<le> n" by (rule clearLoop_mono)
  have tab: "scoreTable = [0, 40, 100, 300, 1200]" by (simp add: scoreTable_def)
  show ?thesis
  proof (cases "0 < n")
    case True
    with res have lt: "nat n < length scoreTable"
      and g': "g' = g\<lparr>board := b, score := score g + wrap32 (scoreTable ! nat n * level g),
                   linesCleared := linesCleared g + n,
                   level := 1 + c_div (linesCleared g + n) 10\<rparr>"
      by simp_all
    have "length scoreTable = 5" by (simp add: scoreTable_def)
    with lt have le: "n \<le> 4" by linarith
    have sc: "score g' = score g + wrap32 ([0, 40, 100, 300, 1200] ! nat n * level g)"
      by (simp add: g' tab)
    have ex: "score g' = score g + [0, 40, 100, 300, 1200] ! nat n * level g"
      if "- (2 ^ 31) \<le> [0, 40, 100, 300, 1200] ! nat n * level g"
        and "[0, 40, 100, 300, 1200] ! nat n * level g < 2 ^ 31"
      unfolding sc using that by (simp only: wrap32_id)
    have cd: "c_div (linesCleared g + n) 10 = (linesCleared g + n) div 10" if "0 \<le> linesCleared g"
      using that True by (simp add: c_div_nonneg)
    have rest: "linesCleared g' = linesCleared g + n" "level g' = 1 + c_div (linesCleared g') 10"
      by (simp_all add: g')
    from True le sc ex cd rest show ?thesis by auto
  next
    case False
    with n0 have n: "n = 0" by simp
    with res have g': "g' = g\<lparr>board := b\<rparr>" by simp
    show ?thesis by (simp add: n g' wrap32_def)
  qed
qed

text \<open>The I piece after one clockwise rotation stands in frame column 2.\<close>

lemma I_cells_1: "cells (rotatePiece (pieces ! 0) 1)
    = Array4 (Array4 0 0 1 0) (Array4 0 0 1 0) (Array4 0 0 1 0) (Array4 0 0 1 0)"
  by (simp add: rotatePiece_loop pieces_eq rotateOnce_eq getCell_def)

text \<open>
  C3. A clear of \<open>n\<close> rows at level \<open>L\<close> is to raise the score by exactly the entry \<open>n\<close> of
  \<open>{0, 40, 100, 300, 1200}\<close> times \<open>L\<close>. The program does not do so at high levels: the
  product is computed on 32-bit operands and exceeds their range from level 1789570 on
  when four rows are cleared. The game below satisfies the session invariant at level
  2000000. Its gravity step locks the upright I piece into the last free column of the
  four bottom rows and clears them; lines and level are updated as stated, but the score
  changes by \<open>-1894967296\<close>, while 1200 times the level is 2400000000.
\<close>

theorem clearLines_score_overflow:
  "sessionInv
     \<lparr>board = replicate 16 (replicate 10 0) @
         [[2, 2, 2, 2, 2, 2, 2, 2, 2, 0], [2, 2, 2, 2, 2, 2, 2, 2, 2, 0],
          [2, 2, 2, 2, 2, 2, 2, 2, 2, 0], [2, 2, 2, 2, 2, 2, 2, 2, 2, 0]],
       curPieceId = 0, curRot = 1, curX = 7, curY = 16, nextPieceId = 5, gameOver = False,
       score = 0, level = 2000000, linesCleared = 19999990\<rparr>
   \<and> gravityStep
     \<lparr>board = replicate 16 (replicate 10 0) @
         [[2, 2, 2, 2, 2, 2, 2, 2, 2, 0], [2, 2, 2, 2, 2, 2, 2, 2, 2, 0],
          [2, 2, 2, 2, 2, 2, 2, 2, 2, 0], [2, 2, 2, 2, 2, 2, 2, 2, 2, 0]],
       curPieceId = 0, curRot = 1, curX = 7, curY = 16, nextPieceId = 5, gameOver = False,
       score = 0, level = 2000000, linesCleared = 19999990\<rparr> 23
     = Some \<lparr>board = replicate 20 (replicate 10 0),
       curPieceId = 5, curRot = 0, curX = 3, curY = - 2, nextPieceId = 2, gameOver = False,
       score = - 1894967296, level = 2000000, linesCleared = 19999994\<rparr>
   \<and> [0, 40, 100, 300, 1200] ! 4 * (2000000::int) = 2400000000"
proof -
  let ?r = "[2, 2, 2, 2, 2, 2, 2, 2, 2, 0::int]"
  let ?f = "[2, 2, 2, 2, 2, 2, 2, 2, 2, 1::int]"
  let ?b = "replicate 16 (replicate 10 0) @ [?r, ?r, ?r, ?r]"
  let ?b' = "replicate 16 (replicate 10 0) @ [?f, ?f, ?f, ?f]"
  let ?g = "\<lparr>board = ?b,
       curPieceId = 0, curRot = 1, curX = 7, curY = 16, nextPieceId = 5, gameOver = False,
       score = 0, level = 2000000, linesCleared = 19999990\<rparr>"
  have wf: "wf_board ?b"
    by (simp add: wf_board_def BOARD_H_def BOARD_W_def list_all_iff)
  have n: "fullRowCount ?b = 0"
    by (simp add: fullRowCount_def rowFull_literal rowFull_replicate)
  have inv: "sessionInv ?g"
    by (simp add: sessionInv_def wf n)
  have col: "collides ?g 0 1 7 17"
    by (simp add: collides_def I_cells_1 frameCells_eq getCell_def BOARD_W_def BOARD_H_def)
  have pg: "placePiece ?g = ?g\<lparr>board := ?b'\<rparr>"
    by (simp add: placePiece_def Let_def I_cells_1 frameCells_eq getCell_def BOARD_H_def BOARD_W_def
        list_update_append nth_append)
  have wf': "wf_board ?b'"
    by (simp add: wf_board_def BOARD_H_def BOARD_W_def list_all_iff)
  have n': "fullRowCount ?b' = 4"
    by (simp add: fullRowCount_def rowFull_literal rowFull_replicate)
  have r20: "replicate 20 (replicate 10 (0::int)) = replicate 4 (replicate 10 0) @ replicate 16 (replicate 10 0)"
    by (simp add: replicate_add [symmetric])
  have cl: "clearLines (placePiece ?g) = Some (\<lparr>board = replicate 20 (replicate 10 0),
       curPieceId = 0, curRot = 1, curX = 7, curY = 16, nextPieceId = 5, gameOver = False,
       score = - 1894967296, level = 2000000, linesCleared = 19999994\<rparr>, 4)"
    unfolding pg using clearLines_eval [of "?g\<lparr>board := ?b'\<rparr>"]
    by (simp add: wf' n' r20 emptyRow_def BOARD_W_def rowFull_literal rowFull_replicate
        scoreTable_def c_div_def wrap32_def)
  have nc: "\<not> collides g' 5 0 3 (- 2)" for g'
    by (rule spawn_never_collides) simp_all
  have sp: "spawnPiece \<lparr>board = replicate 20 (replicate 10 0),
       curPieceId = 0, curRot = 1, curX = 7, curY = 16, nextPieceId = 5, gameOver = False,
       score = - 1894967296, level = 2000000, linesCleared = 19999994\<rparr> 23
      = \<lparr>board = replicate 20 (replicate 10 0),
       curPieceId = 5, curRot = 0, curX = 3, curY = - 2, nextPieceId = 2, gameOver = False,
       score = - 1894967296, level = 2000000, linesCleared = 19999994\<rparr>"
    by (simp add: spawnPiece_def Let_def pieces_length half_width nc)
  have gs: "gravityStep ?g 23 = Some \<lparr>board = replicate 20 (replicate 10 0),
       curPieceId = 5, curRot = 0, curX = 3, curY = - 2, nextPieceId = 2, gameOver = False,
       score = - 1894967296, level = 2000000, linesCleared = 19999994\<rparr>"
    using col by (simp add: gravityStep_def lockAndSpawn_def cl sp)
  have pr: "[0, 40, 100, 300, 1200] ! 4 * (2000000::int) = 2400000000" by simp
  show ?thesis by (intro conjI inv gs pr)
qed

end
